theory Spec2Isabelle
  imports Main "HOL-Library.FSet" "HOL-Library.Product_Lexorder"
begin

section \<open>Data model\<close>

text \<open>
  A cell is a pair of Python integers. Python sets are finite, so cell sets are finite
  sets (\<open>fset\<close>); \<open>len\<close> of a set is \<open>fcard\<close>.
\<close>

type_synonym cell = "int \<times> int"

text \<open>Class \<open>Sentence\<close>: a set of cells and a count of how many of them are mines.\<close>

record sentence =
  cells :: "cell fset"
  count :: int

text \<open>\<open>Sentence.__init__\<close>: the cell set is copied, the count stored.\<close>

definition Sentence :: "cell fset \<Rightarrow> int \<Rightarrow> sentence" where
  "Sentence cs k = \<lparr>cells = cs, count = k\<rparr>"

text \<open>\<open>Sentence.__eq__\<close>: equal cell sets and equal counts.\<close>

definition sentence_eq :: "sentence \<Rightarrow> sentence \<Rightarrow> bool" where
  "sentence_eq s other = (cells s = cells other \<and> count s = count other)"

text \<open>
  A \<open>for\<close> loop over a Python set visits every element once, in an order the language
  leaves open. The model visits them in increasing order; the lemmas
  \<open>fold_mark_safe\<close> and \<open>fold_mark_mine\<close> below show that the loops of this program
  give the same result in every order.
\<close>

definition set_iter :: "cell fset \<Rightarrow> cell list" where
  "set_iter S = sorted_list_of_fset S"

text \<open>\<open>Sentence.known_mines\<close> and \<open>Sentence.known_safes\<close>: the cell set or \<open>None\<close>.\<close>

definition known_mines :: "sentence \<Rightarrow> cell fset option" where
  "known_mines s = (if int (fcard (cells s)) = count s then Some (cells s) else None)"

definition known_safes :: "sentence \<Rightarrow> cell fset option" where
  "known_safes s = (if count s = 0 then Some (cells s) else None)"

text \<open>
  \<open>Sentence.mark_mine\<close>: rebuilds the cell set without \<open>cell\<close>, decrementing the count
  when \<open>cell\<close> is met. The set object itself is replaced, not modified.
\<close>

definition sentence_mark_mine :: "cell \<Rightarrow> sentence \<Rightarrow> sentence" where
  "sentence_mark_mine cell s =
     (let (newcells, k) =
            fold (\<lambda>maybe (nc, k). if maybe \<noteq> cell then (finsert maybe nc, k) else (nc, k - 1))
                 (set_iter (cells s)) ({||}, count s)
      in \<lparr>cells = newcells, count = k\<rparr>)"

text \<open>\<open>Sentence.mark_safe\<close>: rebuilds the cell set without \<open>cell\<close>; the count stays.\<close>

definition sentence_mark_safe :: "cell \<Rightarrow> sentence \<Rightarrow> sentence" where
  "sentence_mark_safe cell s =
     (let newcells =
            fold (\<lambda>maybe nc. if maybe \<noteq> cell then finsert maybe nc else nc)
                 (set_iter (cells s)) {||}
      in \<lparr>cells = newcells, count = count s\<rparr>)"

text \<open>
  Class \<open>MinesweeperAI\<close>. The knowledge list holds each sentence object once, so the
  in-place mutation of the objects is the update of the list's elements.
\<close>

record ai =
  height :: int
  width :: int
  moves_made :: "cell fset"
  mines :: "cell fset"
  safes :: "cell fset"
  knowledge :: "sentence list"

text \<open>\<open>MinesweeperAI.__init__\<close>.\<close>

definition init_ai :: "int \<Rightarrow> int \<Rightarrow> ai" where
  "init_ai h w =
     \<lparr>height = h, width = w, moves_made = {||}, mines = {||}, safes = {||}, knowledge = []\<rparr>"

section \<open>Operations of the knowledge base\<close>

text \<open>\<open>MinesweeperAI.mark_mine\<close> and \<open>MinesweeperAI.mark_safe\<close>.\<close>

definition mark_mine :: "cell \<Rightarrow> ai \<Rightarrow> ai" where
  "mark_mine cell st =
     st\<lparr>mines := finsert cell (mines st),
        knowledge := map (sentence_mark_mine cell) (knowledge st)\<rparr>"

definition mark_safe :: "cell \<Rightarrow> ai \<Rightarrow> ai" where
  "mark_safe cell st =
     st\<lparr>safes := finsert cell (safes st),
        knowledge := map (sentence_mark_safe cell) (knowledge st)\<rparr>"

text \<open>The loops \<open>for c in S: self.mark_mine(c)\<close> and \<open>for c in S: self.mark_safe(c)\<close>.\<close>

definition mark_all_mine :: "cell fset \<Rightarrow> ai \<Rightarrow> ai" where
  "mark_all_mine S st = fold mark_mine (set_iter S) st"

definition mark_all_safe :: "cell fset \<Rightarrow> ai \<Rightarrow> ai" where
  "mark_all_safe S st = fold mark_safe (set_iter S) st"

text \<open>
  \<open>MinesweeperAI.get_neighbors\<close>: the two nested loops over \<open>range(-1, 2)\<close>, with the
  set of neighbours and the count as the loop state.
\<close>

definition offsets :: "(int \<times> int) list" where
  "offsets = [(i, j). i \<leftarrow> [-1, 0, 1], j \<leftarrow> [-1, 0, 1]]"

definition neighbor_step :: "ai \<Rightarrow> cell \<Rightarrow> int \<times> int \<Rightarrow> cell fset \<times> int \<Rightarrow> cell fset \<times> int" where
  "neighbor_step st cell off acc =
     (let (x, y) = cell; (i, j) = off; (neighbors, cnt) = acc
      in if i = 0 \<and> j = 0 then acc
         else if 0 \<le> x + i \<and> x + i < height st \<and> 0 \<le> y + j \<and> y + j < width st then
           (let neighbors' =
                  (if (x + i, y + j) |\<notin>| safes st \<and> (x + i, y + j) |\<notin>| mines st
                   then finsert (x + i, y + j) neighbors else neighbors);
                cnt' = (if (x + i, y + j) |\<in>| mines st then cnt - 1 else cnt)
            in (neighbors', cnt'))
         else acc)"

definition get_neighbors :: "ai \<Rightarrow> cell \<Rightarrow> int \<Rightarrow> cell fset \<times> int" where
  "get_neighbors st cell cnt = fold (neighbor_step st cell) offsets ({||}, cnt)"

text \<open>
  \<open>MinesweeperAI.add_knowledge\<close>, in the order of the source. First the move is
  recorded, the cell marked safe, and the new sentence appended; the result carries the
  local variables \<open>newcells\<close> and \<open>count\<close>, which later steps read unchanged.
\<close>

definition new_sentence_stage :: "cell \<Rightarrow> int \<Rightarrow> ai \<Rightarrow> ai \<times> cell fset \<times> int" where
  "new_sentence_stage cell cnt st =
     (let st1 = st\<lparr>moves_made := finsert cell (moves_made st)\<rparr>;
          st2 = mark_safe cell st1;
          (newcells, cnt') = get_neighbors st2 cell cnt;
          st3 = st2\<lparr>knowledge := knowledge st2 @ [Sentence newcells cnt']\<rparr>
      in (st3, newcells, cnt'))"

text \<open>``Mark safe if known as safe'', then ``Mark mine if known as mine''.\<close>

definition resolve_new :: "cell fset \<Rightarrow> int \<Rightarrow> ai \<Rightarrow> ai" where
  "resolve_new newcells cnt st =
     (let st1 = (if cnt = 0 then mark_all_safe newcells st else st);
          st2 = (if int (fcard newcells) = cnt then mark_all_mine newcells st1 else st1)
      in st2)"

text \<open>
  The three-way branch on a difference set, written twice in the source (once for the
  subset test, once for the superset test).
\<close>

definition infer_branch :: "cell fset \<Rightarrow> int \<Rightarrow> ai \<times> sentence list \<Rightarrow> ai \<times> sentence list" where
  "infer_branch setdiff cntdiff acc =
     (let (st, inferences) = acc
      in if int (fcard setdiff) = cntdiff then (mark_all_mine setdiff st, inferences)
         else if cntdiff = 0 then (mark_all_safe setdiff st, inferences)
         else (st, inferences @ [Sentence setdiff cntdiff]))"

text \<open>
  One iteration of ``Draw new inferences'' for the sentence at index \<open>i\<close>: the subset
  test with its branch, then the superset test with its branch. The new sentence is the
  last element of the list. Each test reads the sentence at index \<open>i\<close> from the current
  state, since marking cells updates every sentence of the list.
\<close>

definition infer_subset :: "cell fset \<Rightarrow> int \<Rightarrow> nat \<Rightarrow> ai \<times> sentence list \<Rightarrow> ai \<times> sentence list" where
  "infer_subset newcells cnt i acc =
     (let sentence = knowledge (fst acc) ! i
      in if cells sentence |\<subseteq>| newcells
         then infer_branch (newcells |-| cells sentence) (cnt - count sentence) acc
         else acc)"

definition infer_superset :: "cell fset \<Rightarrow> int \<Rightarrow> nat \<Rightarrow> ai \<times> sentence list \<Rightarrow> ai \<times> sentence list" where
  "infer_superset newcells cnt i acc =
     (let sentence = knowledge (fst acc) ! i
      in if newcells |\<subseteq>| cells sentence
         then infer_branch (cells sentence |-| newcells) (count sentence - cnt) acc
         else acc)"

definition infer_step :: "cell fset \<Rightarrow> int \<Rightarrow> nat \<Rightarrow> ai \<times> sentence list \<Rightarrow> ai \<times> sentence list" where
  "infer_step newcells cnt i acc =
     (if sentence_eq (knowledge (fst acc) ! i) (last (knowledge (fst acc))) then acc
      else infer_superset newcells cnt i (infer_subset newcells cnt i acc))"

definition draw_inferences :: "cell fset \<Rightarrow> int \<Rightarrow> ai \<Rightarrow> ai \<times> sentence list" where
  "draw_inferences newcells cnt st =
     fold (infer_step newcells cnt) [0..<length (knowledge st)] (st, [])"

text \<open>``Remove duplicates'': keeps the first of every group of equal sentences.\<close>

definition remove_duplicates :: "sentence list \<Rightarrow> sentence list" where
  "remove_duplicates ks =
     fold (\<lambda>s unique. if list_ex (sentence_eq s) unique then unique else unique @ [s]) ks []"

text \<open>
  The steps of \<open>add_knowledge\<close> that follow the append of the new sentence, up to and
  including ``Remove duplicates'': they work on the state that holds the new sentence and
  on the local variables \<open>newcells\<close> and \<open>count\<close>.
\<close>

definition resolve_and_infer :: "cell fset \<Rightarrow> int \<Rightarrow> ai \<Rightarrow> ai" where
  "resolve_and_infer newcells cnt st3 =
     (let st5 = resolve_new newcells cnt st3;
          (st6, inferences) = draw_inferences newcells cnt st5;
          st7 = st6\<lparr>knowledge := knowledge st6 @ inferences\<rparr>
      in st7\<lparr>knowledge := remove_duplicates (knowledge st7)\<rparr>)"

text \<open>
  The steps of \<open>add_knowledge\<close> up to and including ``Remove duplicates''.
\<close>

definition pre_cleanup :: "cell \<Rightarrow> int \<Rightarrow> ai \<Rightarrow> ai" where
  "pre_cleanup cell cnt st =
     (let (st3, newcells, cnt') = new_sentence_stage cell cnt st
      in resolve_and_infer newcells cnt' st3)"

text \<open>
  ``Final cleanup''. The list \<open>final\<close> holds references to sentence objects of
  \<open>self.knowledge\<close>, which later iterations still mutate; the model keeps their indices
  and reads the sentences when the loop is over. Both \<open>continue\<close> statements sit in the
  inner \<open>for\<close> loops, as their last statement, so the append is reached in every
  iteration of the outer loop. A returned set is tested for truth: \<open>None\<close> and the empty
  set are false.
\<close>

definition cleanup_step :: "nat \<Rightarrow> ai \<times> nat list \<Rightarrow> ai \<times> nat list" where
  "cleanup_step i acc =
     (let (st, final) = acc;
          st1 = (case known_mines (knowledge st ! i) of
                   Some ms \<Rightarrow> if ms \<noteq> {||} then mark_all_mine ms st else st
                 | None \<Rightarrow> st);
          st2 = (case known_safes (knowledge st1 ! i) of
                   Some ss \<Rightarrow> if ss \<noteq> {||} then mark_all_safe ss st1 else st1
                 | None \<Rightarrow> st1)
      in (st2, final @ [i]))"

definition final_cleanup :: "ai \<Rightarrow> ai" where
  "final_cleanup st =
     (let (st', final) = fold cleanup_step [0..<length (knowledge st)] (st, [])
      in st'\<lparr>knowledge := map (\<lambda>i. knowledge st' ! i) final\<rparr>)"

definition add_knowledge :: "cell \<Rightarrow> int \<Rightarrow> ai \<Rightarrow> ai" where
  "add_knowledge cell cnt st = final_cleanup (pre_cleanup cell cnt st)"

text \<open>
  \<open>MinesweeperAI.make_safe_move\<close>. \<open>set.pop\<close> removes and returns an element of its
  choice from a non-empty set; the set it is called on here is the fresh difference
  \<open>self.safes - self.moves_made\<close>, a local value. The operation is a relation between
  the state before and the returned cell with the state after.
\<close>

inductive set_pop :: "cell fset \<Rightarrow> cell \<times> cell fset \<Rightarrow> bool" where
  pop: "c |\<in>| S \<Longrightarrow> set_pop S (c, S |-| {|c|})"

inductive make_safe_move :: "ai \<Rightarrow> cell option \<times> ai \<Rightarrow> bool" where
  move: "0 < fcard (safes st |-| moves_made st) \<Longrightarrow>
         set_pop (safes st |-| moves_made st) (c, rest) \<Longrightarrow>
         make_safe_move st (Some c, st)"
| no_move: "\<not> 0 < fcard (safes st |-| moves_made st) \<Longrightarrow> make_safe_move st (None, st)"

code_pred set_pop .

code_pred make_safe_move .

section \<open>Notions used to state the properties\<close>

text \<open>The effect of marking a whole set of cells on one sentence.\<close>

definition strike_safe :: "cell fset \<Rightarrow> sentence \<Rightarrow> sentence" where
  "strike_safe S s = \<lparr>cells = cells s |-| S, count = count s\<rparr>"

definition strike_mine :: "cell fset \<Rightarrow> sentence \<Rightarrow> sentence" where
  "strike_mine S s = \<lparr>cells = cells s |-| S, count = count s - int (fcard (cells s |\<inter>| S))\<rparr>"

text \<open>Board geometry: the cells next to a cell, and the cells on an \<open>h\<close> by \<open>w\<close> board.\<close>

definition adjacent :: "cell \<Rightarrow> cell \<Rightarrow> bool" where
  "adjacent c d = (d \<noteq> c \<and> \<bar>fst d - fst c\<bar> \<le> 1 \<and> \<bar>snd d - snd c\<bar> \<le> 1)"

definition in_bounds :: "int \<Rightarrow> int \<Rightarrow> cell \<Rightarrow> bool" where
  "in_bounds h w d = (0 \<le> fst d \<and> fst d < h \<and> 0 \<le> snd d \<and> snd d < w)"

text \<open>
  Correct usage is stated against a mine layout \<open>M\<close>: the clue given for a cell is the
  number of mines among its neighbours on the board, and the cell itself is no mine.
\<close>

definition true_clue :: "cell fset \<Rightarrow> int \<Rightarrow> int \<Rightarrow> cell \<Rightarrow> int" where
  "true_clue M h w c = int (fcard (ffilter (\<lambda>d. adjacent c d \<and> in_bounds h w d) M))"

text \<open>The public operations that change the knowledge base, and sequences of them.\<close>

datatype call = AddKnowledge cell int | MarkMine cell | MarkSafe cell

fun do_call :: "call \<Rightarrow> ai \<Rightarrow> ai" where
  "do_call (AddKnowledge c k) st = add_knowledge c k st"
| "do_call (MarkMine c) st = mark_mine c st"
| "do_call (MarkSafe c) st = mark_safe c st"

definition run :: "call list \<Rightarrow> ai \<Rightarrow> ai" where
  "run calls st = fold do_call calls st"

fun correct_call :: "cell fset \<Rightarrow> int \<Rightarrow> int \<Rightarrow> call \<Rightarrow> bool" where
  "correct_call M h w (AddKnowledge c k) = (c |\<notin>| M \<and> k = true_clue M h w c)"
| "correct_call M h w (MarkMine c) = (c |\<in>| M)"
| "correct_call M h w (MarkSafe c) = (c |\<notin>| M)"

text \<open>
  A sentence is true of a layout when its count is the number of its cells that are
  mines; a knowledge base is sound for a layout when its mines are mines, its safe cells
  are not, and all its sentences are true.
\<close>

definition sentence_true :: "cell fset \<Rightarrow> sentence \<Rightarrow> bool" where
  "sentence_true M s = (count s = int (fcard (cells s |\<inter>| M)))"

definition sound :: "cell fset \<Rightarrow> ai \<Rightarrow> bool" where
  "sound M st =
     (mines st |\<subseteq>| M \<and> safes st |\<inter>| M = {||} \<and> list_all (sentence_true M) (knowledge st))"

text \<open>The cells reached from a cell by a list of offsets, the zero offset left out.\<close>

definition shifted :: "cell \<Rightarrow> (int \<times> int) list \<Rightarrow> cell list" where
  "shifted c offs = map (\<lambda>(i, j). (fst c + i, snd c + j)) (filter (\<lambda>(i, j). \<not> (i = 0 \<and> j = 0)) offs)"

text \<open>What the inference loop and the final cleanup keep, for a layout \<open>M\<close>.\<close>

definition loop_inv :: "cell fset \<Rightarrow> nat \<Rightarrow> ai \<times> sentence list \<Rightarrow> bool" where
  "loop_inv M n acc =
     (sound M (fst acc) \<and> list_all (sentence_true M) (snd acc) \<and> length (knowledge (fst acc)) = n)"

definition sweep_inv :: "cell fset \<Rightarrow> nat \<Rightarrow> ai \<times> nat list \<Rightarrow> bool" where
  "sweep_inv M n acc = (sound M (fst acc) \<and> length (knowledge (fst acc)) = n)"

text \<open>
  A cell is bound to be marked as a mine when it already is one, or when a held sentence
  contains it and has as many cells as its count says; \<open>due_mine\<close> is the same for the
  sentences at the indices the final cleanup has not visited yet.
\<close>

definition full_with :: "cell \<Rightarrow> sentence \<Rightarrow> bool" where
  "full_with c s = (c |\<in>| cells s \<and> int (fcard (cells s)) = count s)"

definition pending_mine :: "cell \<Rightarrow> ai \<Rightarrow> bool" where
  "pending_mine c st = (c |\<in>| mines st \<or> list_ex (full_with c) (knowledge st))"

definition due_mine :: "cell \<Rightarrow> nat list \<Rightarrow> ai \<Rightarrow> bool" where
  "due_mine c js st = (c |\<in>| mines st \<or> list_ex (\<lambda>j. full_with c (knowledge st ! j)) js)"

section \<open>The sentence operations in closed form\<close>

lemma distinct_set_iter: "distinct (set_iter S)"
  unfolding set_iter_def by (simp add: sorted_list_of_fset.rep_eq)

lemma set_set_iter: "set (set_iter S) = fset S"
  by (simp add: set_iter_def)

lemma fset_of_list_set_iter: "fset_of_list (set_iter S) = S"
  by (simp add: set_iter_def)

lemma mine_loop:
  "fold (\<lambda>maybe (nc, k). if maybe \<noteq> c then (finsert maybe nc, k) else (nc, k - 1)) xs (A, k0)
     = (A |\<union>| (fset_of_list xs |-| {|c|}), k0 - int (count_list xs c))"
  by (induction xs arbitrary: A k0) auto

lemma safe_loop:
  "fold (\<lambda>maybe nc. if maybe \<noteq> c then finsert maybe nc else nc) xs A
     = A |\<union>| (fset_of_list xs |-| {|c|})"
  by (induction xs arbitrary: A) auto

lemma count_list_distinct: "distinct xs \<Longrightarrow> count_list xs c = (if c \<in> set xs then 1 else 0)"
  by (induction xs) auto

lemma sentence_mark_mine_eq:
  "sentence_mark_mine c s =
     \<lparr>cells = cells s |-| {|c|}, count = (if c |\<in>| cells s then count s - 1 else count s)\<rparr>"
  by (simp add: sentence_mark_mine_def mine_loop count_list_distinct distinct_set_iter
      set_set_iter fset_of_list_set_iter)

lemma sentence_mark_safe_eq:
  "sentence_mark_safe c s = \<lparr>cells = cells s |-| {|c|}, count = count s\<rparr>"
  by (simp add: sentence_mark_safe_def safe_loop fset_of_list_set_iter)

lemma sentence_eq_iff: "sentence_eq s t = (s = t)"
  by (auto simp: sentence_eq_def)

section \<open>Sentence queries\<close>

text \<open>
  C7. \<open>known_mines\<close> returns the sentence's cell set exactly when the count equals the
  number of cells and \<open>None\<close> exactly when it does not; \<open>known_safes\<close> returns the cell
  set exactly when the count is 0 and \<open>None\<close> exactly when it is not.
\<close>

theorem known_mines_safes_iff:
  "(known_mines s = Some (cells s)) = (int (fcard (cells s)) = count s) \<and>
   (known_mines s = None) = (int (fcard (cells s)) \<noteq> count s) \<and>
   (known_safes s = Some (cells s)) = (count s = 0) \<and>
   (known_safes s = None) = (count s \<noteq> 0)"
  by (simp add: known_mines_def known_safes_def)

section \<open>Marking a cell twice\<close>

text \<open>
  C8. Marking a cell as a mine twice gives the state that marking it once gives: the
  same sets, the same moves and the same sentences. The same holds for marking a cell
  safe.
\<close>

theorem mark_twice_idempotent:
  "mark_mine c (mark_mine c st) = mark_mine c st \<and>
   mark_safe c (mark_safe c st) = mark_safe c st"
  by (simp add: mark_mine_def mark_safe_def sentence_mark_mine_eq sentence_mark_safe_eq comp_def)

section \<open>Marking sets of cells\<close>

lemma strike_safe_step:
  "strike_safe (fset_of_list xs) (sentence_mark_safe x s) = strike_safe (fset_of_list (x # xs)) s"
  by (auto simp: strike_safe_def sentence_mark_safe_eq)

lemma fcard_inter_finsert:
  "fcard (A |\<inter>| finsert x X) = (if x |\<in>| A then Suc (fcard ((A |-| {|x|}) |\<inter>| X)) else fcard (A |\<inter>| X))"
proof (cases "x |\<in>| A")
  case True
  have "A |\<inter>| finsert x X = finsert x ((A |-| {|x|}) |\<inter>| X)" using True by auto
  moreover have "x |\<notin>| (A |-| {|x|}) |\<inter>| X" by auto
  ultimately show ?thesis using True by (simp add: fcard_finsert_disjoint)
next
  case False
  then have "A |\<inter>| finsert x X = A |\<inter>| X" by auto
  then show ?thesis using False by simp
qed

lemma strike_mine_step:
  "strike_mine (fset_of_list xs) (sentence_mark_mine x s) = strike_mine (fset_of_list (x # xs)) s"
proof (cases "x |\<in>| cells s")
  case True
  have "fcard (cells s |\<inter>| fset_of_list (x # xs))
          = Suc (fcard ((cells s |-| {|x|}) |\<inter>| fset_of_list xs))"
    using True fcard_inter_finsert [of "cells s" x "fset_of_list xs"] by simp
  moreover have "cells s |-| {|x|} |-| fset_of_list xs = cells s |-| fset_of_list (x # xs)"
    by auto
  ultimately show ?thesis using True
    by (simp add: strike_mine_def sentence_mark_mine_eq)
next
  case False
  then have "cells s |-| {|x|} = cells s" by auto
  then show ?thesis using False
    by (auto simp: strike_mine_def sentence_mark_mine_eq fcard_inter_finsert)
qed

lemma strike_safe_empty: "strike_safe {||} s = s"
  by (simp add: strike_safe_def)

lemma strike_mine_empty: "strike_mine {||} s = s"
  by (simp add: strike_mine_def)

lemma fold_mark_safe:
  "fold mark_safe xs st =
     st\<lparr>safes := safes st |\<union>| fset_of_list xs,
        knowledge := map (strike_safe (fset_of_list xs)) (knowledge st)\<rparr>"
proof (induction xs arbitrary: st)
  case Nil
  then show ?case by (simp add: strike_safe_empty cong: map_cong)
next
  case (Cons x xs)
  have "fold mark_safe (x # xs) st = fold mark_safe xs (mark_safe x st)" by simp
  also have "\<dots> = (mark_safe x st)\<lparr>safes := safes (mark_safe x st) |\<union>| fset_of_list xs,
        knowledge := map (strike_safe (fset_of_list xs)) (knowledge (mark_safe x st))\<rparr>"
    by (rule Cons.IH)
  also have "\<dots> = st\<lparr>safes := safes st |\<union>| fset_of_list (x # xs),
        knowledge := map (strike_safe (fset_of_list (x # xs))) (knowledge st)\<rparr>"
    by (simp add: mark_safe_def comp_def strike_safe_step del: fset_of_list_simps) (simp)
  finally show ?case .
qed

lemma fold_mark_mine:
  "fold mark_mine xs st =
     st\<lparr>mines := mines st |\<union>| fset_of_list xs,
        knowledge := map (strike_mine (fset_of_list xs)) (knowledge st)\<rparr>"
proof (induction xs arbitrary: st)
  case Nil
  then show ?case by (simp add: strike_mine_empty cong: map_cong)
next
  case (Cons x xs)
  have "fold mark_mine (x # xs) st = fold mark_mine xs (mark_mine x st)" by simp
  also have "\<dots> = (mark_mine x st)\<lparr>mines := mines (mark_mine x st) |\<union>| fset_of_list xs,
        knowledge := map (strike_mine (fset_of_list xs)) (knowledge (mark_mine x st))\<rparr>"
    by (rule Cons.IH)
  also have "\<dots> = st\<lparr>mines := mines st |\<union>| fset_of_list (x # xs),
        knowledge := map (strike_mine (fset_of_list (x # xs))) (knowledge st)\<rparr>"
    by (simp add: mark_mine_def comp_def strike_mine_step del: fset_of_list_simps) (simp)
  finally show ?case .
qed

lemma mark_all_safe_eq:
  "mark_all_safe S st =
     st\<lparr>safes := safes st |\<union>| S, knowledge := map (strike_safe S) (knowledge st)\<rparr>"
  by (simp add: mark_all_safe_def fold_mark_safe fset_of_list_set_iter)

lemma mark_all_mine_eq:
  "mark_all_mine S st =
     st\<lparr>mines := mines st |\<union>| S, knowledge := map (strike_mine S) (knowledge st)\<rparr>"
  by (simp add: mark_all_mine_def fold_mark_mine fset_of_list_set_iter)

section \<open>The neighbours of a cell\<close>

lemma neighbor_step_eq:
  "neighbor_step st c (i, j) (N, k) =
     (if i = 0 \<and> j = 0 then (N, k)
      else (if in_bounds (height st) (width st) (fst c + i, snd c + j) \<and>
               (fst c + i, snd c + j) |\<notin>| safes st \<and> (fst c + i, snd c + j) |\<notin>| mines st
            then finsert (fst c + i, snd c + j) N else N,
            if in_bounds (height st) (width st) (fst c + i, snd c + j) \<and>
               (fst c + i, snd c + j) |\<in>| mines st
            then k - 1 else k))"
  by (simp add: neighbor_step_def in_bounds_def Let_def case_prod_beta)

lemma shifted_Cons:
  "shifted c ((i, j) # offs) =
     (if i = 0 \<and> j = 0 then shifted c offs else (fst c + i, snd c + j) # shifted c offs)"
  by (simp add: shifted_def)

lemma neighbor_fold:
  "fold (neighbor_step st c) offs (N, k) =
     (N |\<union>| fset_of_list (filter (\<lambda>d. in_bounds (height st) (width st) d \<and> d |\<notin>| safes st \<and> d |\<notin>| mines st)
                              (shifted c offs)),
      k - int (length (filter (\<lambda>d. in_bounds (height st) (width st) d \<and> d |\<in>| mines st) (shifted c offs))))"
proof (induction offs arbitrary: N k)
  case Nil
  then show ?case by (simp add: shifted_def)
next
  case (Cons off offs)
  obtain i j where off: "off = (i, j)" by (cases off)
  show ?case
    unfolding off fold_Cons comp_def neighbor_step_eq shifted_Cons
    by (simp add: Cons.IH) auto
qed

lemma shifted_offsets:
  "shifted (x, y) offsets =
     [(x - 1, y - 1), (x - 1, y), (x - 1, y + 1), (x, y - 1), (x, y + 1),
      (x + 1, y - 1), (x + 1, y), (x + 1, y + 1)]"
  by (simp add: shifted_def offsets_def)

lemma distinct_shifted_offsets: "distinct (shifted c offsets)"
  by (cases c) (simp add: shifted_offsets)

lemma set_shifted_offsets: "set (shifted c offsets) = {d. adjacent c d}"
proof -
  obtain x y where c: "c = (x, y)" by (cases c)
  have "(a, b) \<in> set (shifted (x, y) offsets) \<longleftrightarrow> adjacent (x, y) (a, b)" for a b
    unfolding shifted_offsets adjacent_def by (simp; presburger)
  then show ?thesis unfolding c by auto
qed

lemma get_neighbors_cells:
  "fset (fst (get_neighbors st c k)) =
     {d. adjacent c d \<and> in_bounds (height st) (width st) d \<and> d |\<notin>| safes st \<and> d |\<notin>| mines st}"
  by (auto simp: get_neighbors_def neighbor_fold fset_of_list.rep_eq set_shifted_offsets)

lemma get_neighbors_count:
  "snd (get_neighbors st c k) =
     k - int (card {d. adjacent c d \<and> in_bounds (height st) (width st) d \<and> d |\<in>| mines st})"
proof -
  have "length (filter (\<lambda>d. in_bounds (height st) (width st) d \<and> d |\<in>| mines st) (shifted c offsets))
        = card {d. adjacent c d \<and> in_bounds (height st) (width st) d \<and> d |\<in>| mines st}"
    using distinct_shifted_offsets [of c]
    by (simp add: distinct_length_filter set_shifted_offsets Collect_conj_eq Int_commute Int_assoc)
  then show ?thesis by (simp add: get_neighbors_def neighbor_fold)
qed

section \<open>The new sentence of a clue\<close>

lemma new_sentence_stage_spec:
  "case new_sentence_stage cell cnt st of (st3, newcells, cnt') \<Rightarrow>
     (let st2 = mark_safe cell (st\<lparr>moves_made := finsert cell (moves_made st)\<rparr>) in
      fset newcells = {d. adjacent cell d \<and> in_bounds (height st) (width st) d \<and>
                          d |\<notin>| safes st2 \<and> d |\<notin>| mines st2} \<and>
      cnt' = cnt - int (card {d. adjacent cell d \<and> in_bounds (height st) (width st) d \<and>
                                 d |\<in>| mines st2}) \<and>
      knowledge st3 = knowledge st2 @ [\<lparr>cells = newcells, count = cnt'\<rparr>])"
proof -
  define st2 where "st2 = mark_safe cell (st\<lparr>moves_made := finsert cell (moves_made st)\<rparr>)"
  have hw: "height st2 = height st" "width st2 = width st"
    by (simp_all add: st2_def mark_safe_def)
  obtain newcells cnt' where g: "get_neighbors st2 cell cnt = (newcells, cnt')"
    by (cases "get_neighbors st2 cell cnt")
  have "fset newcells = {d. adjacent cell d \<and> in_bounds (height st) (width st) d \<and>
                          d |\<notin>| safes st2 \<and> d |\<notin>| mines st2}"
    using get_neighbors_cells [of st2 cell cnt] by (simp add: g hw)
  moreover have "cnt' = cnt - int (card {d. adjacent cell d \<and> in_bounds (height st) (width st) d \<and>
                                 d |\<in>| mines st2})"
    using get_neighbors_count [of st2 cell cnt] by (simp add: g hw)
  ultimately show ?thesis
    by (simp add: new_sentence_stage_def Let_def g Sentence_def flip: st2_def)
qed

text \<open>
  C6. Every call of \<open>add_knowledge\<close> creates one new sentence and appends it to the
  knowledge list as it is after the probed cell was marked safe; the rest of the call runs
  on the list so extended. The cells of the new sentence are exactly the cells adjacent
  to the probed cell that lie on the board and are in neither \<open>safes\<close> nor \<open>mines\<close> at that
  point, and its count is the given count minus the number of adjacent cells on the board
  that are in \<open>mines\<close> at that point.
\<close>

theorem add_knowledge_new_constraint:
  "\<exists>newcells cnt'.
     fset newcells =
       {d. adjacent cell d \<and> in_bounds (height st) (width st) d \<and>
           d |\<notin>| safes (mark_safe cell (st\<lparr>moves_made := finsert cell (moves_made st)\<rparr>)) \<and>
           d |\<notin>| mines (mark_safe cell (st\<lparr>moves_made := finsert cell (moves_made st)\<rparr>))} \<and>
     cnt' = cnt - int (card
       {d. adjacent cell d \<and> in_bounds (height st) (width st) d \<and>
           d |\<in>| mines (mark_safe cell (st\<lparr>moves_made := finsert cell (moves_made st)\<rparr>))}) \<and>
     add_knowledge cell cnt st =
       final_cleanup (resolve_and_infer newcells cnt'
         (mark_safe cell (st\<lparr>moves_made := finsert cell (moves_made st)\<rparr>)
            \<lparr>knowledge :=
               knowledge (mark_safe cell (st\<lparr>moves_made := finsert cell (moves_made st)\<rparr>))
                 @ [\<lparr>cells = newcells, count = cnt'\<rparr>]\<rparr>))"
proof -
  define st2 where "st2 = mark_safe cell (st\<lparr>moves_made := finsert cell (moves_made st)\<rparr>)"
  have hw: "height st2 = height st" "width st2 = width st"
    by (simp_all add: st2_def mark_safe_def)
  obtain N k where g: "get_neighbors st2 cell cnt = (N, k)"
    by (cases "get_neighbors st2 cell cnt")
  have ns: "new_sentence_stage cell cnt st =
      (st2\<lparr>knowledge := knowledge st2 @ [\<lparr>cells = N, count = k\<rparr>]\<rparr>, N, k)"
    by (simp add: new_sentence_stage_def Let_def g Sentence_def flip: st2_def)
  have 1: "fset N = {d. adjacent cell d \<and> in_bounds (height st) (width st) d \<and>
                        d |\<notin>| safes st2 \<and> d |\<notin>| mines st2}"
    using get_neighbors_cells [of st2 cell cnt] by (simp add: g hw)
  have 2: "k = cnt - int (card {d. adjacent cell d \<and> in_bounds (height st) (width st) d \<and>
                               d |\<in>| mines st2})"
    using get_neighbors_count [of st2 cell cnt] by (simp add: g hw)
  have 3: "add_knowledge cell cnt st =
      final_cleanup (resolve_and_infer N k
        (st2\<lparr>knowledge := knowledge st2 @ [\<lparr>cells = N, count = k\<rparr>]\<rparr>))"
    by (simp add: add_knowledge_def pre_cleanup_def ns)
  have body: "fset N = {d. adjacent cell d \<and> in_bounds (height st) (width st) d \<and>
                        d |\<notin>| safes st2 \<and> d |\<notin>| mines st2} \<and>
     k = cnt - int (card {d. adjacent cell d \<and> in_bounds (height st) (width st) d \<and>
                               d |\<in>| mines st2}) \<and>
     add_knowledge cell cnt st =
      final_cleanup (resolve_and_infer N k
        (st2\<lparr>knowledge := knowledge st2 @ [\<lparr>cells = N, count = k\<rparr>]\<rparr>))"
    using 1 2 3 by (intro conjI)
  show ?thesis
    by (rule exI [of _ N], rule exI [of _ k], rule body [unfolded st2_def])
qed

section \<open>Removing duplicates\<close>

lemma list_ex_sentence_eq: "list_ex (sentence_eq s) ks = (s \<in> set ks)"
  by (auto simp: list_ex_iff sentence_eq_iff)

lemma distinct_dedup_fold:
  "distinct acc \<Longrightarrow>
   distinct (fold (\<lambda>s unique. if list_ex (sentence_eq s) unique then unique else unique @ [s]) ks acc)"
  by (induction ks arbitrary: acc) (simp_all add: list_ex_sentence_eq)

lemma set_dedup_fold:
  "set (fold (\<lambda>s unique. if list_ex (sentence_eq s) unique then unique else unique @ [s]) ks acc)
     = set acc \<union> set ks"
  by (induction ks arbitrary: acc) (auto simp: list_ex_sentence_eq)

lemma distinct_remove_duplicates: "distinct (remove_duplicates ks)"
  by (simp add: remove_duplicates_def distinct_dedup_fold)

lemma set_remove_duplicates: "set (remove_duplicates ks) = set ks"
  by (simp add: remove_duplicates_def set_dedup_fold)

text \<open>
  C2, as the claim states it, fails: on a 2 by 3 board with the mines in row 0, the clues
  for (1,0) and (1,1) leave two equal sentences in the list. The new sentence of the
  second call and the sentence inferred from it are different when duplicates are
  removed, and the final cleanup, which marks (0,0) and (0,1) as mines, makes them equal.
\<close>

theorem dedup_counterexample:
  "knowledge (add_knowledge (1, 1) 3 (add_knowledge (1, 0) 2 (init_ai 2 3))) =
     [\<lparr>cells = {||}, count = 0\<rparr>,
      \<lparr>cells = {|(0, 2), (1, 2)|}, count = 1\<rparr>,
      \<lparr>cells = {|(0, 2), (1, 2)|}, count = 1\<rparr>]"
  by code_simp

text \<open>
  C2, amended. In every call of \<open>add_knowledge\<close>, when the step ``Remove duplicates'' is
  over (before the final cleanup starts), no two entries of the knowledge list are equal
  as sentences.
\<close>

theorem knowledge_distinct_after_dedup: "distinct (knowledge (pre_cleanup cell cnt st))"
  by (simp add: pre_cleanup_def resolve_and_infer_def Let_def case_prod_beta distinct_remove_duplicates)

section \<open>The final cleanup\<close>

text \<open>
  C1. On a 1 by 5 board with one mine at (0,0), after the clues 1 for (0,1) and 0 for
  (0,3), the final cleanup of the second call starts from the sentences \<open>{(0,0)} = 1\<close> and
  \<open>{} = 0\<close>. The first has a non-empty \<open>known_mines\<close>; its cell is marked as a mine, and
  the sentence, by then empty, is still in the list when the call returns.
\<close>

theorem cleanup_keeps_resolved_sentence:
  "knowledge (pre_cleanup (0, 3) 0 (add_knowledge (0, 1) 1 (init_ai 1 5))) =
     [\<lparr>cells = {|(0, 0)|}, count = 1\<rparr>, \<lparr>cells = {||}, count = 0\<rparr>] \<and>
   known_mines \<lparr>cells = {|(0, 0)|}, count = 1\<rparr> = Some {|(0, 0)|} \<and>
   knowledge (add_knowledge (0, 3) 0 (add_knowledge (0, 1) 1 (init_ai 1 5))) =
     [\<lparr>cells = {||}, count = 0\<rparr>, \<lparr>cells = {||}, count = 0\<rparr>] \<and>
   mines (add_knowledge (0, 3) 0 (add_knowledge (0, 1) 1 (init_ai 1 5))) = {|(0, 0)|}"
  by code_simp

section \<open>Choosing a safe move\<close>

text \<open>
  C9. \<open>make_safe_move\<close> always returns, and leaves the state as it was. When
  \<open>safes - moves_made\<close> is empty it returns \<open>None\<close>; otherwise it returns a cell that is
  in \<open>safes\<close> and not in \<open>moves_made\<close>.
\<close>

theorem make_safe_move_frame:
  "(\<exists>r. make_safe_move st r) \<and>
   (\<forall>r st'. make_safe_move st (r, st') \<longrightarrow>
      st' = st \<and>
      (if safes st |-| moves_made st = {||} then r = None
       else \<exists>c. r = Some c \<and> c |\<in>| safes st \<and> c |\<notin>| moves_made st))"
proof (intro conjI allI impI)
  show "\<exists>r. make_safe_move st r"
  proof (cases "safes st |-| moves_made st = {||}")
    case True
    then have "make_safe_move st (None, st)" by (intro no_move) simp
    then show ?thesis by blast
  next
    case False
    then obtain c where c: "c |\<in>| safes st |-| moves_made st" by auto
    from False have "0 < fcard (safes st |-| moves_made st)"
      by (metis fcard_fempty fcard_seteq gr0I fempty_fsubsetI le0)
    then have "make_safe_move st (Some c, st)" using pop [OF c] by (rule move)
    then show ?thesis by blast
  qed
next
  fix r st' assume m: "make_safe_move st (r, st')"
  then show "st' = st" by (cases rule: make_safe_move.cases) auto
  from m show "if safes st |-| moves_made st = {||} then r = None
       else \<exists>c. r = Some c \<and> c |\<in>| safes st \<and> c |\<notin>| moves_made st"
    by (cases rule: make_safe_move.cases) (auto elim!: set_pop.cases)
qed

text \<open>An instance of C9: one safe cell is left to play, and it is the one returned.\<close>

theorem make_safe_move_frame_witness:
  "make_safe_move (init_ai 1 3\<lparr>safes := {|(0, 0), (0, 1)|}, moves_made := {|(0, 1)|}\<rparr>)
     (Some (0, 0), init_ai 1 3\<lparr>safes := {|(0, 0), (0, 1)|}, moves_made := {|(0, 1)|}\<rparr>) \<and>
   (0, 0) |\<in>| safes (init_ai 1 3\<lparr>safes := {|(0, 0), (0, 1)|}, moves_made := {|(0, 1)|}\<rparr>) \<and>
   (0, 0) |\<notin>| moves_made (init_ai 1 3\<lparr>safes := {|(0, 0), (0, 1)|}, moves_made := {|(0, 1)|}\<rparr>)"
proof -
  define st0 where "st0 = init_ai 1 3\<lparr>safes := {|(0, 0), (0, 1)|}, moves_made := {|(0, 1)|}\<rparr>"
  have d: "safes st0 |-| moves_made st0 = {|(0, 0)|}"
    by (auto simp: st0_def)
  have "set_pop (safes st0 |-| moves_made st0) ((0, 0), (safes st0 |-| moves_made st0) |-| {|(0, 0)|})"
    by (rule pop) (simp add: d)
  moreover have "0 < fcard (safes st0 |-| moves_made st0)" by (simp add: d fcard_finsert_if)
  ultimately have h: "make_safe_move st0 (Some (0, 0), st0)" by (rule move [rotated])
  from make_safe_move_frame [of st0] h
  have "if safes st0 |-| moves_made st0 = {||} then Some (0::int, 0::int) = None
        else \<exists>c. Some (0, 0) = Some c \<and> c |\<in>| safes st0 \<and> c |\<notin>| moves_made st0"
    by blast
  then have "(0, 0) |\<in>| safes st0 \<and> (0, 0) |\<notin>| moves_made st0" by (simp add: d)
  with h show ?thesis unfolding st0_def by simp
qed

section \<open>Properties kept by every stage of a call\<close>

text \<open>
  After the new sentence is appended, the state is changed only by marking sets of cells.
  A property of states kept by both kinds of marking is kept by each loop of the call.
\<close>

lemma mark_mine_as_all: "mark_mine c st = mark_all_mine {|c|} st"
  by (simp add: mark_all_mine_eq mark_mine_def strike_mine_def sentence_mark_mine_eq
      fcard_finsert_if cong: map_cong)

lemma mark_safe_as_all: "mark_safe c st = mark_all_safe {|c|} st"
  by (simp add: mark_all_safe_eq mark_safe_def strike_safe_def sentence_mark_safe_eq cong: map_cong)

lemma resolve_new_rule:
  assumes "P st"
    and "\<And>S st. P st \<Longrightarrow> P (mark_all_mine S st)"
    and "\<And>S st. P st \<Longrightarrow> P (mark_all_safe S st)"
  shows "P (resolve_new N k st)"
  using assms by (simp add: resolve_new_def Let_def)

lemma infer_branch_rule:
  assumes "P (fst acc)"
    and "\<And>S st. P st \<Longrightarrow> P (mark_all_mine S st)"
    and "\<And>S st. P st \<Longrightarrow> P (mark_all_safe S st)"
  shows "P (fst (infer_branch D k acc))"
  using assms by (simp add: infer_branch_def case_prod_beta)

lemma infer_subset_rule:
  assumes "P (fst acc)"
    and "\<And>S st. P st \<Longrightarrow> P (mark_all_mine S st)"
    and "\<And>S st. P st \<Longrightarrow> P (mark_all_safe S st)"
  shows "P (fst (infer_subset N k i acc))"
  unfolding infer_subset_def Let_def
  using assms(1) infer_branch_rule [of P acc, OF assms] by (simp only: split: if_split) simp

lemma infer_superset_rule:
  assumes "P (fst acc)"
    and "\<And>S st. P st \<Longrightarrow> P (mark_all_mine S st)"
    and "\<And>S st. P st \<Longrightarrow> P (mark_all_safe S st)"
  shows "P (fst (infer_superset N k i acc))"
  unfolding infer_superset_def Let_def
  using assms(1) infer_branch_rule [of P acc, OF assms] by (simp only: split: if_split) simp

lemma infer_step_rule:
  assumes "P (fst acc)"
    and "\<And>S st. P st \<Longrightarrow> P (mark_all_mine S st)"
    and "\<And>S st. P st \<Longrightarrow> P (mark_all_safe S st)"
  shows "P (fst (infer_step N k i acc))"
proof -
  have "P (fst (infer_subset N k i acc))"
    using assms by (rule infer_subset_rule)
  then have "P (fst (infer_superset N k i (infer_subset N k i acc)))"
    using assms(2,3) by (rule infer_superset_rule)
  then show ?thesis
    unfolding infer_step_def using assms(1) by (simp only: split: if_split) simp
qed

lemma fold_infer_rule:
  assumes "P (fst acc)"
    and "\<And>S st. P st \<Longrightarrow> P (mark_all_mine S st)"
    and "\<And>S st. P st \<Longrightarrow> P (mark_all_safe S st)"
  shows "P (fst (fold (infer_step N k) is acc))"
  using assms(1)
proof (induction "is" arbitrary: acc)
  case Nil
  then show ?case by simp
next
  case (Cons i "is")
  have "P (fst (infer_step N k i acc))"
    using Cons.prems assms(2,3) by (rule infer_step_rule)
  then show ?case using Cons.IH by simp
qed

lemma draw_inferences_rule:
  assumes "P st"
    and "\<And>S st. P st \<Longrightarrow> P (mark_all_mine S st)"
    and "\<And>S st. P st \<Longrightarrow> P (mark_all_safe S st)"
  shows "P (fst (draw_inferences N k st))"
proof -
  have "P (fst (st, []::sentence list))" using assms(1) by simp
  then show ?thesis
    unfolding draw_inferences_def using assms(2,3) by (rule fold_infer_rule)
qed

lemma cleanup_step_rule:
  assumes "P (fst acc)"
    and "\<And>S st. P st \<Longrightarrow> P (mark_all_mine S st)"
    and "\<And>S st. P st \<Longrightarrow> P (mark_all_safe S st)"
  shows "P (fst (cleanup_step i acc))"
  using assms by (simp add: cleanup_step_def case_prod_beta Let_def split: option.split)

lemma fold_cleanup_rule:
  assumes "P (fst acc)"
    and "\<And>S st. P st \<Longrightarrow> P (mark_all_mine S st)"
    and "\<And>S st. P st \<Longrightarrow> P (mark_all_safe S st)"
  shows "P (fst (fold cleanup_step is acc))"
  using assms(1)
proof (induction "is" arbitrary: acc)
  case Nil
  then show ?case by simp
next
  case (Cons i "is")
  have "P (fst (cleanup_step i acc))"
    using Cons.prems assms(2,3) by (rule cleanup_step_rule)
  then show ?case using Cons.IH by simp
qed

lemma snd_cleanup_step: "snd (cleanup_step i acc) = snd acc @ [i]"
  by (simp add: cleanup_step_def case_prod_beta Let_def)

lemma snd_fold_cleanup: "snd (fold cleanup_step is acc) = snd acc @ is"
  by (induction "is" arbitrary: acc) (simp_all add: snd_cleanup_step)

lemma length_mark_all_mine: "length (knowledge (mark_all_mine S st)) = length (knowledge st)"
  by (simp add: mark_all_mine_eq)

lemma length_mark_all_safe: "length (knowledge (mark_all_safe S st)) = length (knowledge st)"
  by (simp add: mark_all_safe_eq)

lemma length_fold_cleanup:
  "length (knowledge (fst (fold cleanup_step is acc))) = length (knowledge (fst acc))"
  by (rule fold_cleanup_rule [where P = "\<lambda>s. length (knowledge s) = length (knowledge (fst acc))"])
     (simp_all add: length_mark_all_mine length_mark_all_safe)

text \<open>The final cleanup retains every sentence: its result is the state of the sweep.\<close>

lemma final_cleanup_eq:
  "final_cleanup st = fst (fold cleanup_step [0..<length (knowledge st)] (st, []))"
proof -
  define r where "r = fold cleanup_step [0..<length (knowledge st)] (st, [])"
  have s: "snd r = [0..<length (knowledge st)]"
    by (simp add: r_def snd_fold_cleanup)
  have l: "length (knowledge (fst r)) = length (knowledge st)"
    by (simp add: r_def length_fold_cleanup)
  have "map (\<lambda>i. knowledge (fst r) ! i) (snd r) = knowledge (fst r)"
    unfolding s l [symmetric] by (rule map_nth)
  then show ?thesis
    by (simp add: final_cleanup_def case_prod_beta flip: r_def)
qed

lemma final_cleanup_rule:
  assumes "P st"
    and "\<And>S st. P st \<Longrightarrow> P (mark_all_mine S st)"
    and "\<And>S st. P st \<Longrightarrow> P (mark_all_safe S st)"
  shows "P (final_cleanup st)"
proof -
  have "P (fst (st, []::nat list))" using assms(1) by simp
  then show ?thesis
    unfolding final_cleanup_eq using assms(2,3) by (rule fold_cleanup_rule)
qed

lemma final_cleanup_length: "length (knowledge (final_cleanup st)) = length (knowledge st)"
  by (rule final_cleanup_rule [where P = "\<lambda>s. length (knowledge s) = length (knowledge st)"])
     (simp_all add: length_mark_all_mine length_mark_all_safe)

section \<open>Sentences without cells\<close>

lemma strike_empty:
  "strike_mine S \<lparr>cells = {||}, count = k\<rparr> = \<lparr>cells = {||}, count = k\<rparr>"
  "strike_safe S \<lparr>cells = {||}, count = k\<rparr> = \<lparr>cells = {||}, count = k\<rparr>"
  by (simp_all add: strike_mine_def strike_safe_def)

lemma empty_kept_mark_all_mine:
  "\<lparr>cells = {||}, count = k\<rparr> \<in> set (knowledge st) \<Longrightarrow>
   \<lparr>cells = {||}, count = k\<rparr> \<in> set (knowledge (mark_all_mine S st))"
  using strike_empty(1) [of S k] by (force simp: mark_all_mine_eq image_iff)

lemma empty_kept_mark_all_safe:
  "\<lparr>cells = {||}, count = k\<rparr> \<in> set (knowledge st) \<Longrightarrow>
   \<lparr>cells = {||}, count = k\<rparr> \<in> set (knowledge (mark_all_safe S st))"
  using strike_empty(2) [of S k] by (force simp: mark_all_safe_eq image_iff)

lemma knowledge_pre_cleanup:
  "set (knowledge (pre_cleanup c k st)) =
     (let (st3, N, k') = new_sentence_stage c k st;
          r = draw_inferences N k' (resolve_new N k' st3)
      in set (knowledge (fst r)) \<union> set (snd r))"
  by (simp add: pre_cleanup_def resolve_and_infer_def Let_def case_prod_beta set_remove_duplicates)

lemma empty_kept_after_new:
  assumes "\<lparr>cells = {||}, count = k\<rparr> \<in> set (knowledge (fst (new_sentence_stage c n st)))"
  shows "\<lparr>cells = {||}, count = k\<rparr> \<in> set (knowledge (add_knowledge c n st))"
proof -
  let ?e = "\<lparr>cells = {||}, count = k\<rparr>"
  let ?P = "\<lambda>s. ?e \<in> set (knowledge s)"
  obtain st3 N k' where ns: "new_sentence_stage c n st = (st3, N, k')"
    by (cases "new_sentence_stage c n st")
  have 3: "?P st3" using assms by (simp add: ns)
  have 5: "?P (resolve_new N k' st3)"
    using 3 by (rule resolve_new_rule) (simp_all add: empty_kept_mark_all_mine empty_kept_mark_all_safe)
  have 6: "?P (fst (draw_inferences N k' (resolve_new N k' st3)))"
    using 5 by (rule draw_inferences_rule) (simp_all add: empty_kept_mark_all_mine empty_kept_mark_all_safe)
  have 8: "?P (pre_cleanup c n st)"
    using 6 by (simp add: knowledge_pre_cleanup ns Let_def)
  have "?P (final_cleanup (pre_cleanup c n st))"
    using 8 by (rule final_cleanup_rule) (simp_all add: empty_kept_mark_all_mine empty_kept_mark_all_safe)
  then show ?thesis by (simp add: add_knowledge_def)
qed

lemma empty_kept_new_stage:
  assumes "\<lparr>cells = {||}, count = k\<rparr> \<in> set (knowledge st)"
  shows "\<lparr>cells = {||}, count = k\<rparr> \<in> set (knowledge (fst (new_sentence_stage c n st)))"
proof -
  have "\<lparr>cells = {||}, count = k\<rparr>
          \<in> set (knowledge (mark_all_safe {|c|} (st\<lparr>moves_made := finsert c (moves_made st)\<rparr>)))"
    using assms by (intro empty_kept_mark_all_safe) simp
  then show ?thesis
    by (simp add: new_sentence_stage_def Let_def case_prod_beta mark_safe_as_all)
qed

lemma empty_kept_do_call:
  assumes "\<lparr>cells = {||}, count = k\<rparr> \<in> set (knowledge st)"
  shows "\<lparr>cells = {||}, count = k\<rparr> \<in> set (knowledge (do_call x st))"
proof (cases x)
  case (AddKnowledge c n)
  then show ?thesis using empty_kept_after_new [OF empty_kept_new_stage [OF assms]] by simp
next
  case (MarkMine c)
  then show ?thesis using empty_kept_mark_all_mine [OF assms] by (simp add: mark_mine_as_all)
next
  case (MarkSafe c)
  then show ?thesis using empty_kept_mark_all_safe [OF assms] by (simp add: mark_safe_as_all)
qed

lemma empty_kept_run:
  "\<lparr>cells = {||}, count = k\<rparr> \<in> set (knowledge st) \<Longrightarrow>
   \<lparr>cells = {||}, count = k\<rparr> \<in> set (knowledge (run calls st))"
  unfolding run_def by (induction calls arbitrary: st) (simp_all add: empty_kept_do_call)

text \<open>
  C10. When the probed cell has no undetermined neighbour and the adjusted count is 0,
  the sentence with no cells and count 0 that \<open>add_knowledge\<close> appends is in the
  knowledge list when the call returns, and it is still there after any further sequence
  of calls.
\<close>

theorem empty_sentence_persists:
  assumes "get_neighbors (mark_safe cell (st\<lparr>moves_made := finsert cell (moves_made st)\<rparr>)) cell cnt
             = ({||}, 0)"
  shows "\<lparr>cells = {||}, count = 0\<rparr> \<in> set (knowledge (run calls (add_knowledge cell cnt st)))"
proof -
  have "\<lparr>cells = {||}, count = 0\<rparr> \<in> set (knowledge (fst (new_sentence_stage cell cnt st)))"
    by (simp add: new_sentence_stage_def Let_def assms Sentence_def)
  then have "\<lparr>cells = {||}, count = 0\<rparr> \<in> set (knowledge (add_knowledge cell cnt st))"
    by (rule empty_kept_after_new)
  then show ?thesis by (rule empty_kept_run)
qed

text \<open>
  An instance of C10: on a 1 by 3 board without mines, the clue for (0,0) after the clue
  for (0,1) has no undetermined neighbour; the empty sentence is kept through a third
  clue.
\<close>

theorem empty_sentence_persists_witness:
  "get_neighbors
     (mark_safe (0, 0) (add_knowledge (0, 1) 0 (init_ai 1 3)
        \<lparr>moves_made := finsert (0, 0) (moves_made (add_knowledge (0, 1) 0 (init_ai 1 3)))\<rparr>))
     (0, 0) 0 = ({||}, 0) \<and>
   \<lparr>cells = {||}, count = 0\<rparr>
     \<in> set (knowledge (run [AddKnowledge (0, 2) 0]
                (add_knowledge (0, 0) 0 (add_knowledge (0, 1) 0 (init_ai 1 3)))))"
proof -
  have h: "get_neighbors
     (mark_safe (0, 0) (add_knowledge (0, 1) 0 (init_ai 1 3)
        \<lparr>moves_made := finsert (0, 0) (moves_made (add_knowledge (0, 1) 0 (init_ai 1 3)))\<rparr>))
     (0, 0) 0 = ({||}, 0)"
    by code_simp
  from h empty_sentence_persists [OF h, of "[AddKnowledge (0, 2) 0]"] show ?thesis by simp
qed

section \<open>Soundness for a mine layout\<close>

lemma fcard_inter_split:
  assumes "S |\<subseteq>| M"
  shows "fcard (A |\<inter>| M) = fcard ((A |-| S) |\<inter>| M) + fcard (A |\<inter>| S)"
proof -
  have "A |\<inter>| M = ((A |-| S) |\<inter>| M) |\<union>| (A |\<inter>| S)" using assms by auto
  moreover have "((A |-| S) |\<inter>| M) |\<inter>| (A |\<inter>| S) = {||}" by auto
  ultimately show ?thesis by (metis fcard_funion_disjoint)
qed

lemma fcard_inter_full:
  assumes "fcard (A |\<inter>| M) = fcard A"
  shows "A |\<subseteq>| M"
proof -
  have "A |\<inter>| M |\<subseteq>| A" by auto
  then have "A |\<inter>| M = A" using assms by (metis fcard_seteq order_refl)
  then show ?thesis by auto
qed

lemma fcard_diff_inter:
  assumes "A |\<subseteq>| B"
  shows "int (fcard ((B |-| A) |\<inter>| M)) = int (fcard (B |\<inter>| M)) - int (fcard (A |\<inter>| M))"
proof -
  have "B |\<inter>| M = ((B |-| A) |\<inter>| M) |\<union>| (A |\<inter>| M)" using assms by auto
  moreover have "((B |-| A) |\<inter>| M) |\<inter>| (A |\<inter>| M) = {||}" by auto
  ultimately have "fcard (B |\<inter>| M) = fcard ((B |-| A) |\<inter>| M) + fcard (A |\<inter>| M)"
    by (metis fcard_funion_disjoint)
  then show ?thesis by simp
qed

lemma true_strike_safe:
  assumes "S |\<inter>| M = {||}" "sentence_true M s"
  shows "sentence_true M (strike_safe S s)"
proof -
  have "(cells s |-| S) |\<inter>| M = cells s |\<inter>| M" using assms(1) by auto
  then show ?thesis using assms(2) by (simp add: sentence_true_def strike_safe_def)
qed

lemma true_strike_mine:
  assumes "S |\<subseteq>| M" "sentence_true M s"
  shows "sentence_true M (strike_mine S s)"
  using assms(2) fcard_inter_split [OF assms(1), of "cells s"]
  by (simp add: sentence_true_def strike_mine_def)

lemma true_full:
  assumes "sentence_true M s" "int (fcard (cells s)) = count s"
  shows "cells s |\<subseteq>| M"
  using assms by (intro fcard_inter_full) (simp add: sentence_true_def)

lemma true_zero:
  assumes "sentence_true M s" "count s = 0"
  shows "cells s |\<inter>| M = {||}"
  using assms by (simp add: sentence_true_def)

lemma true_diff:
  assumes "sentence_true M \<lparr>cells = A, count = a\<rparr>" "sentence_true M \<lparr>cells = B, count = b\<rparr>"
    and "A |\<subseteq>| B"
  shows "sentence_true M \<lparr>cells = B |-| A, count = b - a\<rparr>"
  using assms(1,2) fcard_diff_inter [OF assms(3), of M] by (simp add: sentence_true_def)

lemma sound_mark_all_safe:
  assumes "sound M st" "S |\<inter>| M = {||}"
  shows "sound M (mark_all_safe S st)"
proof -
  have "(safes st |\<union>| S) |\<inter>| M = {||}" using assms by (auto simp: sound_def)
  then show ?thesis
    using assms by (simp add: sound_def mark_all_safe_eq list_all_iff true_strike_safe)
qed

lemma sound_mark_all_mine:
  assumes "sound M st" "S |\<subseteq>| M"
  shows "sound M (mark_all_mine S st)"
  using assms by (simp add: sound_def mark_all_mine_eq list_all_iff true_strike_mine)

lemma sound_nth:
  "sound M st \<Longrightarrow> i < length (knowledge st) \<Longrightarrow> sentence_true M (knowledge st ! i)"
  by (simp add: sound_def list_all_length)

lemma sentence_surjective': "\<lparr>cells = cells s, count = count s\<rparr> = s"
  by simp

lemma infer_branch_sound:
  assumes "loop_inv M n acc" "sentence_true M \<lparr>cells = D, count = d\<rparr>"
  shows "loop_inv M n (infer_branch D d acc)"
proof -
  have m: "int (fcard D) = d \<Longrightarrow> D |\<subseteq>| M" using true_full [OF assms(2)] by simp
  have s: "d = 0 \<Longrightarrow> D |\<inter>| M = {||}" using true_zero [OF assms(2)] by simp
  show ?thesis
    using assms m s
    by (simp add: infer_branch_def case_prod_beta loop_inv_def sound_mark_all_mine
        sound_mark_all_safe length_mark_all_mine length_mark_all_safe Sentence_def)
qed

lemma infer_subset_sound:
  assumes "loop_inv M n acc" "sentence_true M \<lparr>cells = N, count = k\<rparr>" "i < n"
  shows "loop_inv M n (infer_subset N k i acc)"
proof -
  let ?s = "knowledge (fst acc) ! i"
  have "sentence_true M ?s"
    using assms(1,3) by (simp add: loop_inv_def sound_nth)
  then have t: "sentence_true M \<lparr>cells = cells ?s, count = count ?s\<rparr>"
    by (simp add: sentence_true_def)
  show ?thesis
  proof (cases "cells ?s |\<subseteq>| N")
    case True
    have "sentence_true M \<lparr>cells = N |-| cells ?s, count = k - count ?s\<rparr>"
      using t assms(2) True by (rule true_diff)
    then have "loop_inv M n (infer_branch (N |-| cells ?s) (k - count ?s) acc)"
      using assms(1) by (intro infer_branch_sound)
    then show ?thesis using True by (simp add: infer_subset_def Let_def)
  next
    case False
    then show ?thesis using assms(1) by (simp add: infer_subset_def Let_def)
  qed
qed

lemma infer_superset_sound:
  assumes "loop_inv M n acc" "sentence_true M \<lparr>cells = N, count = k\<rparr>" "i < n"
  shows "loop_inv M n (infer_superset N k i acc)"
proof -
  let ?s = "knowledge (fst acc) ! i"
  have "sentence_true M ?s"
    using assms(1,3) by (simp add: loop_inv_def sound_nth)
  then have t: "sentence_true M \<lparr>cells = cells ?s, count = count ?s\<rparr>"
    by (simp add: sentence_true_def)
  show ?thesis
  proof (cases "N |\<subseteq>| cells ?s")
    case True
    have "sentence_true M \<lparr>cells = cells ?s |-| N, count = count ?s - k\<rparr>"
      using assms(2) t True by (rule true_diff)
    then have "loop_inv M n (infer_branch (cells ?s |-| N) (count ?s - k) acc)"
      using assms(1) by (intro infer_branch_sound)
    then show ?thesis using True by (simp add: infer_superset_def Let_def)
  next
    case False
    then show ?thesis using assms(1) by (simp add: infer_superset_def Let_def)
  qed
qed

lemma infer_step_sound:
  assumes "loop_inv M n acc" "sentence_true M \<lparr>cells = N, count = k\<rparr>" "i < n"
  shows "loop_inv M n (infer_step N k i acc)"
  using assms(1) infer_superset_sound [OF infer_subset_sound [OF assms] assms(2,3)]
  by (simp add: infer_step_def)

lemma fold_infer_sound:
  assumes "sentence_true M \<lparr>cells = N, count = k\<rparr>"
  shows "loop_inv M n acc \<Longrightarrow> \<forall>i \<in> set is. i < n \<Longrightarrow> loop_inv M n (fold (infer_step N k) is acc)"
proof (induction "is" arbitrary: acc)
  case Nil
  then show ?case by simp
next
  case (Cons i "is")
  have "loop_inv M n (infer_step N k i acc)"
    using Cons.prems assms by (intro infer_step_sound) simp_all
  then show ?case using Cons.IH Cons.prems(2) by simp
qed

lemma draw_inferences_sound:
  assumes "sound M st" "sentence_true M \<lparr>cells = N, count = k\<rparr>"
  shows "loop_inv M (length (knowledge st)) (draw_inferences N k st)"
  unfolding draw_inferences_def
  using assms(1) by (intro fold_infer_sound [OF assms(2)]) (simp_all add: loop_inv_def)

lemma cleanup_step_sound:
  assumes "sweep_inv M n acc" "i < n"
  shows "sweep_inv M n (cleanup_step i acc)"
proof -
  define st where "st = fst acc"
  define st1 where "st1 = (case known_mines (knowledge st ! i) of
                   Some ms \<Rightarrow> if ms \<noteq> {||} then mark_all_mine ms st else st
                 | None \<Rightarrow> st)"
  define st2 where "st2 = (case known_safes (knowledge st1 ! i) of
                   Some ss \<Rightarrow> if ss \<noteq> {||} then mark_all_safe ss st1 else st1
                 | None \<Rightarrow> st1)"
  have 0: "sound M st" "length (knowledge st) = n"
    using assms(1) by (simp_all add: sweep_inv_def st_def)
  have t0: "sentence_true M (knowledge st ! i)" using 0 assms(2) by (simp add: sound_nth)
  have 1: "sound M st1 \<and> length (knowledge st1) = n"
    using 0 true_full [OF t0]
    by (auto simp: st1_def known_mines_def sound_mark_all_mine length_mark_all_mine)
  then have t1: "sentence_true M (knowledge st1 ! i)" using assms(2) by (simp add: sound_nth)
  have 2: "sound M st2 \<and> length (knowledge st2) = n"
    using 1 true_zero [OF t1]
    by (auto simp: st2_def known_safes_def sound_mark_all_safe length_mark_all_safe)
  have "fst (cleanup_step i acc) = st2"
    unfolding st2_def st1_def st_def by (simp add: cleanup_step_def case_prod_beta Let_def)
  then show ?thesis using 2 by (simp add: sweep_inv_def)
qed

lemma fold_cleanup_sound:
  "sweep_inv M n acc \<Longrightarrow> \<forall>i \<in> set is. i < n \<Longrightarrow> sweep_inv M n (fold cleanup_step is acc)"
proof (induction "is" arbitrary: acc)
  case Nil
  then show ?case by simp
next
  case (Cons i "is")
  have "sweep_inv M n (cleanup_step i acc)"
    using Cons.prems by (intro cleanup_step_sound) simp_all
  then show ?case using Cons.IH Cons.prems(2) by simp
qed

lemma final_cleanup_sound:
  assumes "sound M st"
  shows "sound M (final_cleanup st)"
proof -
  have "sweep_inv M (length (knowledge st)) (fold cleanup_step [0..<length (knowledge st)] (st, []))"
    using assms by (intro fold_cleanup_sound) (simp_all add: sweep_inv_def)
  then show ?thesis by (simp add: final_cleanup_eq sweep_inv_def)
qed

section \<open>Soundness of a call\<close>

lemma new_sentence_true:
  assumes "sound M st" "k = true_clue M (height st) (width st) c"
  shows "sentence_true M \<lparr>cells = fst (get_neighbors st c k), count = snd (get_neighbors st c k)\<rparr>"
proof -
  define A where "A = {d. adjacent c d \<and> in_bounds (height st) (width st) d}"
  define gn where "gn = get_neighbors st c k"
  have sub: "fset (mines st) \<subseteq> fset M" and dis: "fset (safes st) \<inter> fset M = {}"
    using assms(1) by (auto simp: sound_def)
  have N: "fset (fst gn) \<inter> fset M = (A \<inter> fset M) - fset (mines st)"
    using dis by (auto simp: gn_def get_neighbors_cells A_def)
  have K: "k = int (card (A \<inter> fset M))"
    unfolding assms(2) true_clue_def fcard.rep_eq A_def
    by (rule arg_cong [where f = "\<lambda>X. int (card X)"]) auto
  have C: "snd gn = k - int (card (A \<inter> fset (mines st)))"
    unfolding gn_def get_neighbors_count A_def
    by (rule arg_cong [where f = "\<lambda>X. k - int (card X)"]) auto
  have "A \<inter> fset M = ((A \<inter> fset M) - fset (mines st)) \<union> (A \<inter> fset (mines st))"
    using sub by auto
  moreover have "((A \<inter> fset M) - fset (mines st)) \<inter> (A \<inter> fset (mines st)) = {}" by auto
  moreover have "finite ((A \<inter> fset M) - fset (mines st))" "finite (A \<inter> fset (mines st))"
    by simp_all
  ultimately have "card (A \<inter> fset M)
      = card ((A \<inter> fset M) - fset (mines st)) + card (A \<inter> fset (mines st))"
    by (metis card_Un_disjoint)
  then have "sentence_true M \<lparr>cells = fst gn, count = snd gn\<rparr>"
    by (simp add: sentence_true_def fcard.rep_eq N K C)
  then show ?thesis by (simp add: gn_def)
qed

lemma sound_moves_made: "sound M (st\<lparr>moves_made := X\<rparr>) = sound M st"
  by (simp add: sound_def)

lemma sound_append:
  "sound M st \<Longrightarrow> list_all (sentence_true M) ks \<Longrightarrow> sound M (st\<lparr>knowledge := knowledge st @ ks\<rparr>)"
  by (simp add: sound_def)

lemma sound_remove_duplicates:
  "sound M st \<Longrightarrow> sound M (st\<lparr>knowledge := remove_duplicates (knowledge st)\<rparr>)"
  by (simp add: sound_def list_all_iff set_remove_duplicates)

lemma resolve_new_sound:
  assumes "sound M st" "sentence_true M \<lparr>cells = N, count = k\<rparr>"
  shows "sound M (resolve_new N k st)"
proof -
  have m: "int (fcard N) = k \<Longrightarrow> N |\<subseteq>| M" using true_full [OF assms(2)] by simp
  have s: "k = 0 \<Longrightarrow> N |\<inter>| M = {||}" using true_zero [OF assms(2)] by simp
  show ?thesis
    using assms(1) m s by (simp add: resolve_new_def Let_def sound_mark_all_mine sound_mark_all_safe)
qed

lemma height_width_mark_all:
  "height (mark_all_mine S st) = height st" "width (mark_all_mine S st) = width st"
  "height (mark_all_safe S st) = height st" "width (mark_all_safe S st) = width st"
  by (simp_all add: mark_all_mine_eq mark_all_safe_eq)

lemma new_sentence_stage_sound:
  assumes "sound M st" "c |\<notin>| M" "k = true_clue M (height st) (width st) c"
  shows "sound M (fst (new_sentence_stage c k st)) \<and>
         sentence_true M \<lparr>cells = fst (snd (new_sentence_stage c k st)),
                           count = snd (snd (new_sentence_stage c k st))\<rparr>"
proof -
  define st2 where "st2 = mark_safe c (st\<lparr>moves_made := finsert c (moves_made st)\<rparr>)"
  have 2: "sound M st2"
    unfolding st2_def mark_safe_as_all
    using assms(1,2) by (intro sound_mark_all_safe) (simp_all add: sound_moves_made)
  have hw: "height st2 = height st" "width st2 = width st"
    by (simp_all add: st2_def mark_safe_as_all height_width_mark_all)
  have t: "sentence_true M \<lparr>cells = fst (get_neighbors st2 c k), count = snd (get_neighbors st2 c k)\<rparr>"
    using 2 assms(3) by (intro new_sentence_true) (simp_all add: hw)
  have "sound M (st2\<lparr>knowledge := knowledge st2 @ [\<lparr>cells = fst (get_neighbors st2 c k), count = snd (get_neighbors st2 c k)\<rparr>]\<rparr>)"
    using 2 t by (intro sound_append) simp_all
  then show ?thesis
    using t by (simp add: new_sentence_stage_def Let_def case_prod_beta Sentence_def flip: st2_def)
qed

lemma pre_cleanup_sound:
  assumes "sound M st" "c |\<notin>| M" "k = true_clue M (height st) (width st) c"
  shows "sound M (pre_cleanup c k st)"
proof -
  obtain st3 N k' where ns: "new_sentence_stage c k st = (st3, N, k')"
    by (cases "new_sentence_stage c k st")
  have 3: "sound M st3" and t: "sentence_true M \<lparr>cells = N, count = k'\<rparr>"
    using new_sentence_stage_sound [OF assms] by (simp_all add: ns)
  have 5: "sound M (resolve_new N k' st3)" using 3 t by (rule resolve_new_sound)
  define r where "r = draw_inferences N k' (resolve_new N k' st3)"
  have 6: "sound M (fst r)" "list_all (sentence_true M) (snd r)"
    using draw_inferences_sound [OF 5 t] by (simp_all add: r_def loop_inv_def)
  have 7: "sound M (fst r\<lparr>knowledge := knowledge (fst r) @ snd r\<rparr>)"
    using 6 by (rule sound_append)
  have "pre_cleanup c k st =
      (fst r\<lparr>knowledge := knowledge (fst r) @ snd r\<rparr>)
        \<lparr>knowledge := remove_duplicates (knowledge (fst r\<lparr>knowledge := knowledge (fst r) @ snd r\<rparr>))\<rparr>"
    by (simp add: pre_cleanup_def resolve_and_infer_def ns Let_def case_prod_beta r_def)
  then show ?thesis using sound_remove_duplicates [OF 7] by simp
qed

lemma add_knowledge_sound:
  assumes "sound M st" "c |\<notin>| M" "k = true_clue M (height st) (width st) c"
  shows "sound M (add_knowledge c k st)"
  unfolding add_knowledge_def using pre_cleanup_sound [OF assms] by (rule final_cleanup_sound)

lemma board_new_sentence_stage:
  "height (fst (new_sentence_stage c k st)) = height st \<and>
   width (fst (new_sentence_stage c k st)) = width st"
  by (simp add: new_sentence_stage_def Let_def case_prod_beta mark_safe_as_all height_width_mark_all)

lemma board_add_knowledge:
  "height (add_knowledge c k st) = height st \<and> width (add_knowledge c k st) = width st"
proof -
  let ?P = "\<lambda>s. height s = height st \<and> width s = width st"
  obtain st3 N k' where ns: "new_sentence_stage c k st = (st3, N, k')"
    by (cases "new_sentence_stage c k st")
  have 3: "?P st3" using board_new_sentence_stage [of c k st] by (simp add: ns)
  have 5: "?P (resolve_new N k' st3)"
    using 3 by (rule resolve_new_rule) (simp_all add: height_width_mark_all)
  have 6: "?P (fst (draw_inferences N k' (resolve_new N k' st3)))"
    using 5 by (rule draw_inferences_rule) (simp_all add: height_width_mark_all)
  have 8: "?P (pre_cleanup c k st)"
    using 6 by (simp add: pre_cleanup_def resolve_and_infer_def ns Let_def case_prod_beta)
  have "?P (final_cleanup (pre_cleanup c k st))"
    using 8 by (rule final_cleanup_rule) (simp_all add: height_width_mark_all)
  then show ?thesis by (simp add: add_knowledge_def)
qed

lemma do_call_sound:
  assumes "sound M st" "correct_call M (height st) (width st) x"
  shows "sound M (do_call x st) \<and> height (do_call x st) = height st \<and> width (do_call x st) = width st"
proof (cases x)
  case (AddKnowledge c k)
  then show ?thesis
    using assms add_knowledge_sound [of M st c k] board_add_knowledge [of c k st] by simp
next
  case (MarkMine c)
  then show ?thesis
    using assms sound_mark_all_mine [of M st "{|c|}"]
    by (simp add: mark_mine_as_all height_width_mark_all)
next
  case (MarkSafe c)
  then show ?thesis
    using assms sound_mark_all_safe [of M st "{|c|}"]
    by (simp add: mark_safe_as_all height_width_mark_all)
qed

lemma run_sound:
  "sound M st \<Longrightarrow> list_all (correct_call M (height st) (width st)) calls \<Longrightarrow> sound M (run calls st)"
  unfolding run_def
proof (induction calls arbitrary: st)
  case Nil
  then show ?case by simp
next
  case (Cons x calls)
  have "sound M (do_call x st) \<and> height (do_call x st) = height st \<and> width (do_call x st) = width st"
    using Cons.prems by (intro do_call_sound) simp_all
  then show ?case using Cons.IH [of "do_call x st"] Cons.prems(2) by simp
qed

lemma sound_init: "sound M (init_ai h w)"
  by (simp add: sound_def init_ai_def)

lemma sound_bounds:
  assumes "sound M st" "s \<in> set (knowledge st)"
  shows "0 \<le> count s \<and> count s \<le> int (fcard (cells s))"
proof -
  have "sentence_true M s" using assms by (simp add: sound_def list_all_iff)
  moreover have "fcard (cells s |\<inter>| M) \<le> fcard (cells s)"
    by (rule fcard_mono) auto
  ultimately show ?thesis by (simp add: sentence_true_def)
qed

lemma sound_disjoint: "sound M st \<Longrightarrow> mines st |\<inter>| safes st = {||}"
  by (auto simp: sound_def)

section \<open>The count of a sentence stays within its cells\<close>

text \<open>
  C4, as the claim states it, fails: a clue that is not the true count is stored as it
  is. The clue 5 for the corner (0,0) of a 3 by 3 board leaves a sentence with three cells
  and count 5.
\<close>

theorem count_bounds_counterexample:
  "knowledge (add_knowledge (0, 0) 5 (init_ai 3 3)) =
     [\<lparr>cells = {|(0, 1), (1, 0), (1, 1)|}, count = 5\<rparr>] \<and>
   \<not> (5 \<le> int (fcard {|(0::int, 1::int), (1, 0), (1, 1)|}))"
  by code_simp

text \<open>
  C4, amended. Under correct usage for a mine layout \<open>M\<close> (each clue is given for a cell
  that is no mine and is the number of mines among its neighbours on the board; only
  mines are marked as mines and only other cells as safe), starting from a new knowledge
  base, after every sequence of calls every held sentence has a count between 0 and the
  number of its cells.
\<close>

theorem count_bounds_under_correct_usage:
  assumes "list_all (correct_call M h w) calls"
    and "s \<in> set (knowledge (run calls (init_ai h w)))"
  shows "0 \<le> count s \<and> count s \<le> int (fcard (cells s))"
proof -
  have "sound M (run calls (init_ai h w))"
    using assms(1) by (intro run_sound sound_init) (simp add: init_ai_def)
  then show ?thesis using assms(2) by (rule sound_bounds)
qed

text \<open>An instance of the amended C4: one mine at (0,0) on a 1 by 5 board, one true clue.\<close>

theorem count_bounds_under_correct_usage_witness:
  "list_all (correct_call {|(0, 0)|} 1 5) [AddKnowledge (0, 1) 1] \<and>
   \<lparr>cells = {|(0, 0), (0, 2)|}, count = 1\<rparr>
     \<in> set (knowledge (run [AddKnowledge (0, 1) 1] (init_ai 1 5))) \<and>
   0 \<le> count \<lparr>cells = {|(0, 0), (0, 2)|}, count = 1\<rparr> \<and>
   count \<lparr>cells = {|(0, 0), (0, 2)|}, count = 1\<rparr>
     \<le> int (fcard (cells \<lparr>cells = {|(0, 0), (0, 2)|}, count = 1\<rparr>))"
proof -
  have h1: "list_all (correct_call {|(0, 0)|} 1 5) [AddKnowledge (0, 1) 1]"
    by code_simp
  have h2: "\<lparr>cells = {|(0, 0), (0, 2)|}, count = 1\<rparr>
     \<in> set (knowledge (run [AddKnowledge (0, 1) 1] (init_ai 1 5)))"
    by code_simp
  from count_bounds_under_correct_usage [OF h1 h2] h1 h2 show ?thesis by blast
qed

section \<open>Mines and safe cells stay apart\<close>

text \<open>
  C5, as the claim states it, fails: on a 1 by 3 board the clue 2 for (0,1) marks (0,0)
  as a mine, and a later clue for (0,0) marks the same cell safe.
\<close>

theorem mines_safes_disjoint_counterexample:
  "(0, 0) |\<in>| mines (add_knowledge (0, 0) 0 (add_knowledge (0, 1) 2 (init_ai 1 3))) \<and>
   (0, 0) |\<in>| safes (add_knowledge (0, 0) 0 (add_knowledge (0, 1) 2 (init_ai 1 3)))"
  by code_simp

text \<open>
  C5, amended. Under correct usage for a mine layout \<open>M\<close>, starting from a new
  knowledge base, after every sequence of calls no cell is both in \<open>mines\<close> and in
  \<open>safes\<close>.
\<close>

theorem mines_safes_disjoint_under_correct_usage:
  assumes "list_all (correct_call M h w) calls"
  shows "mines (run calls (init_ai h w)) |\<inter>| safes (run calls (init_ai h w)) = {||}"
proof -
  have "sound M (run calls (init_ai h w))"
    using assms(1) by (intro run_sound sound_init) (simp add: init_ai_def)
  then show ?thesis by (rule sound_disjoint)
qed

text \<open>
  An instance of the amended C5: one mine at (0,0) on a 1 by 5 board and two true clues,
  after which the mine is known.
\<close>

theorem mines_safes_disjoint_under_correct_usage_witness:
  "list_all (correct_call {|(0, 0)|} 1 5) [AddKnowledge (0, 1) 1, AddKnowledge (0, 3) 0] \<and>
   mines (run [AddKnowledge (0, 1) 1, AddKnowledge (0, 3) 0] (init_ai 1 5)) = {|(0, 0)|} \<and>
   mines (run [AddKnowledge (0, 1) 1, AddKnowledge (0, 3) 0] (init_ai 1 5)) |\<inter>|
     safes (run [AddKnowledge (0, 1) 1, AddKnowledge (0, 3) 0] (init_ai 1 5)) = {||}"
proof -
  have h1: "list_all (correct_call {|(0, 0)|} 1 5) [AddKnowledge (0, 1) 1, AddKnowledge (0, 3) 0]"
    by code_simp
  have h2: "mines (run [AddKnowledge (0, 1) 1, AddKnowledge (0, 3) 0] (init_ai 1 5)) = {|(0, 0)|}"
    by code_simp
  from mines_safes_disjoint_under_correct_usage [OF h1] h1 h2 show ?thesis by blast
qed

section \<open>Cells bound to be marked as mines\<close>

lemma fcard_minus_inter: "fcard (A |-| S) + fcard (A |\<inter>| S) = fcard A"
proof -
  have "A = (A |-| S) |\<union>| (A |\<inter>| S)" by auto
  moreover have "(A |-| S) |\<inter>| (A |\<inter>| S) = {||}" by auto
  ultimately show ?thesis by (metis fcard_funion_disjoint)
qed

lemma full_with_strike_mine:
  assumes "full_with c s" "c |\<notin>| S"
  shows "full_with c (strike_mine S s)"
  using assms fcard_minus_inter [of "cells s" S]
  by (simp add: full_with_def strike_mine_def)

lemma full_with_strike_safe:
  assumes "full_with c s" "sentence_true M s" "S |\<inter>| M = {||}"
  shows "full_with c (strike_safe S s)"
proof -
  have "cells s |\<subseteq>| M" using assms(1,2) by (intro true_full) (simp_all add: full_with_def)
  then have "cells s |-| S = cells s" using assms(3) by auto
  then show ?thesis using assms(1) by (simp add: full_with_def strike_safe_def)
qed

lemma pending_mark_all_mine:
  assumes "pending_mine c st"
  shows "pending_mine c (mark_all_mine S st)"
proof (cases "c |\<in>| mines st \<or> c |\<in>| S")
  case True
  then show ?thesis by (auto simp: pending_mine_def mark_all_mine_eq)
next
  case False
  then obtain s where "s \<in> set (knowledge st)" "full_with c s"
    using assms by (auto simp: pending_mine_def list_ex_iff)
  then have "strike_mine S s \<in> set (knowledge (mark_all_mine S st))" "full_with c (strike_mine S s)"
    using False by (simp_all add: mark_all_mine_eq full_with_strike_mine)
  then show ?thesis unfolding pending_mine_def list_ex_iff by blast
qed

lemma pending_mark_all_safe:
  assumes "pending_mine c st" "sound M st" "S |\<inter>| M = {||}"
  shows "pending_mine c (mark_all_safe S st)"
proof (cases "c |\<in>| mines st")
  case True
  then show ?thesis by (simp add: pending_mine_def mark_all_safe_eq)
next
  case False
  then obtain s where s: "s \<in> set (knowledge st)" "full_with c s"
    using assms(1) by (auto simp: pending_mine_def list_ex_iff)
  have "sentence_true M s" using assms(2) s(1) by (simp add: sound_def list_all_iff)
  then have "full_with c (strike_safe S s)" using s(2) assms(3) by (intro full_with_strike_safe)
  moreover have "strike_safe S s \<in> set (knowledge (mark_all_safe S st))"
    using s(1) by (simp add: mark_all_safe_eq)
  ultimately show ?thesis unfolding pending_mine_def list_ex_iff by blast
qed

lemma infer_branch_pending:
  assumes "loop_inv M n acc" "sentence_true M \<lparr>cells = D, count = d\<rparr>" "pending_mine c (fst acc)"
  shows "pending_mine c (fst (infer_branch D d acc))"
proof -
  have s: "d = 0 \<Longrightarrow> D |\<inter>| M = {||}" using true_zero [OF assms(2)] by simp
  have "sound M (fst acc)" using assms(1) by (simp add: loop_inv_def)
  then show ?thesis
    using assms(3) s
    by (simp add: infer_branch_def case_prod_beta pending_mark_all_mine pending_mark_all_safe)
qed

lemma infer_subset_pending:
  assumes "loop_inv M n acc" "sentence_true M \<lparr>cells = N, count = k\<rparr>" "i < n"
    and "pending_mine c (fst acc)"
  shows "pending_mine c (fst (infer_subset N k i acc))"
proof -
  let ?s = "knowledge (fst acc) ! i"
  have "sentence_true M ?s"
    using assms(1,3) by (simp add: loop_inv_def sound_nth)
  then have t: "sentence_true M \<lparr>cells = cells ?s, count = count ?s\<rparr>"
    by (simp add: sentence_true_def)
  show ?thesis
  proof (cases "cells ?s |\<subseteq>| N")
    case True
    have "sentence_true M \<lparr>cells = N |-| cells ?s, count = k - count ?s\<rparr>"
      using t assms(2) True by (rule true_diff)
    then have "pending_mine c (fst (infer_branch (N |-| cells ?s) (k - count ?s) acc))"
      using assms(1,4) by (intro infer_branch_pending)
    then show ?thesis using True by (simp add: infer_subset_def Let_def)
  next
    case False
    then show ?thesis using assms(4) by (simp add: infer_subset_def Let_def)
  qed
qed

lemma infer_superset_pending:
  assumes "loop_inv M n acc" "sentence_true M \<lparr>cells = N, count = k\<rparr>" "i < n"
    and "pending_mine c (fst acc)"
  shows "pending_mine c (fst (infer_superset N k i acc))"
proof -
  let ?s = "knowledge (fst acc) ! i"
  have "sentence_true M ?s"
    using assms(1,3) by (simp add: loop_inv_def sound_nth)
  then have t: "sentence_true M \<lparr>cells = cells ?s, count = count ?s\<rparr>"
    by (simp add: sentence_true_def)
  show ?thesis
  proof (cases "N |\<subseteq>| cells ?s")
    case True
    have "sentence_true M \<lparr>cells = cells ?s |-| N, count = count ?s - k\<rparr>"
      using assms(2) t True by (rule true_diff)
    then have "pending_mine c (fst (infer_branch (cells ?s |-| N) (count ?s - k) acc))"
      using assms(1,4) by (intro infer_branch_pending)
    then show ?thesis using True by (simp add: infer_superset_def Let_def)
  next
    case False
    then show ?thesis using assms(4) by (simp add: infer_superset_def Let_def)
  qed
qed

lemma infer_step_pending:
  assumes "loop_inv M n acc" "sentence_true M \<lparr>cells = N, count = k\<rparr>" "i < n"
    and "pending_mine c (fst acc)"
  shows "pending_mine c (fst (infer_step N k i acc))"
  using assms(4)
    infer_superset_pending [OF infer_subset_sound [OF assms(1-3)] assms(2,3)
      infer_subset_pending [OF assms]]
  by (simp add: infer_step_def)

lemma fold_infer_pending:
  assumes "sentence_true M \<lparr>cells = N, count = k\<rparr>"
  shows "loop_inv M n acc \<Longrightarrow> \<forall>i \<in> set is. i < n \<Longrightarrow> pending_mine c (fst acc) \<Longrightarrow>
         pending_mine c (fst (fold (infer_step N k) is acc))"
proof (induction "is" arbitrary: acc)
  case Nil
  then show ?case by simp
next
  case (Cons i "is")
  have 1: "loop_inv M n (infer_step N k i acc)"
    using Cons.prems assms by (intro infer_step_sound) simp_all
  have 2: "pending_mine c (fst (infer_step N k i acc))"
    using Cons.prems assms by (intro infer_step_pending [where M = M and n = n]) simp_all
  show ?case using Cons.IH [OF 1 _ 2] Cons.prems(2) by simp
qed

lemma draw_inferences_pending:
  assumes "sound M st" "sentence_true M \<lparr>cells = N, count = k\<rparr>" "pending_mine c st"
  shows "pending_mine c (fst (draw_inferences N k st))"
  unfolding draw_inferences_def
  using assms(1,3)
  by (intro fold_infer_pending [OF assms(2), where n = "length (knowledge st)"])
     (simp_all add: loop_inv_def)

lemma due_mark_all_mine:
  assumes "due_mine c js st" "\<forall>j \<in> set js. j < length (knowledge st)"
  shows "due_mine c js (mark_all_mine S st)"
proof (cases "c |\<in>| mines st \<or> c |\<in>| S")
  case True
  then show ?thesis by (auto simp: due_mine_def mark_all_mine_eq)
next
  case False
  then obtain j where j: "j \<in> set js" "full_with c (knowledge st ! j)"
    using assms(1) by (auto simp: due_mine_def list_ex_iff)
  have "knowledge (mark_all_mine S st) ! j = strike_mine S (knowledge st ! j)"
    using j(1) assms(2) by (simp add: mark_all_mine_eq)
  then have "full_with c (knowledge (mark_all_mine S st) ! j)"
    using j(2) False by (simp add: full_with_strike_mine)
  then show ?thesis using j(1) unfolding due_mine_def list_ex_iff by blast
qed

lemma due_mark_all_safe:
  assumes "due_mine c js st" "\<forall>j \<in> set js. j < length (knowledge st)"
    and "sound M st" "S |\<inter>| M = {||}"
  shows "due_mine c js (mark_all_safe S st)"
proof (cases "c |\<in>| mines st")
  case True
  then show ?thesis by (simp add: due_mine_def mark_all_safe_eq)
next
  case False
  then obtain j where j: "j \<in> set js" "full_with c (knowledge st ! j)"
    using assms(1) by (auto simp: due_mine_def list_ex_iff)
  have l: "j < length (knowledge st)" using j(1) assms(2) by simp
  have "sentence_true M (knowledge st ! j)" using assms(3) l by (rule sound_nth)
  then have "full_with c (strike_safe S (knowledge st ! j))"
    using j(2) assms(4) by (intro full_with_strike_safe)
  moreover have "knowledge (mark_all_safe S st) ! j = strike_safe S (knowledge st ! j)"
    using l by (simp add: mark_all_safe_eq)
  ultimately show ?thesis using j(1) unfolding due_mine_def list_ex_iff by force
qed

lemma cleanup_step_due:
  assumes "sweep_inv M n acc" "i < n" "\<forall>j \<in> set js. j < n" "due_mine c (i # js) (fst acc)"
  shows "due_mine c js (fst (cleanup_step i acc))"
proof -
  define st where "st = fst acc"
  define st1 where "st1 = (case known_mines (knowledge st ! i) of
                   Some ms \<Rightarrow> if ms \<noteq> {||} then mark_all_mine ms st else st
                 | None \<Rightarrow> st)"
  define st2 where "st2 = (case known_safes (knowledge st1 ! i) of
                   Some ss \<Rightarrow> if ss \<noteq> {||} then mark_all_safe ss st1 else st1
                 | None \<Rightarrow> st1)"
  have 0: "sound M st" "length (knowledge st) = n"
    using assms(1) by (simp_all add: sweep_inv_def st_def)
  have t0: "sentence_true M (knowledge st ! i)" using 0 assms(2) by (simp add: sound_nth)
  have 1: "sound M st1" "length (knowledge st1) = n"
    using 0 true_full [OF t0]
    by (auto simp: st1_def known_mines_def sound_mark_all_mine length_mark_all_mine)
  have t1: "sentence_true M (knowledge st1 ! i)" using 1 assms(2) by (simp add: sound_nth)
  have js: "\<forall>j \<in> set js. j < length (knowledge st)" "\<forall>j \<in> set js. j < length (knowledge st1)"
    using assms(3) 0(2) 1(2) by simp_all
  have d0: "due_mine c (i # js) st" using assms(4) by (simp add: st_def)
  have d1: "due_mine c js st1"
  proof (cases "full_with c (knowledge st ! i)")
    case True
    then have "st1 = mark_all_mine (cells (knowledge st ! i)) st"
      by (auto simp: st1_def known_mines_def full_with_def)
    then show ?thesis using True by (simp add: due_mine_def mark_all_mine_eq full_with_def)
  next
    case False
    then have d: "due_mine c js st" using d0 by (simp add: due_mine_def)
    show ?thesis
      using d js(1) by (auto simp: st1_def known_mines_def due_mark_all_mine)
  qed
  have d2: "due_mine c js st2"
    using d1 js(2) 1(1) true_zero [OF t1]
    by (auto simp: st2_def known_safes_def intro: due_mark_all_safe)
  have "fst (cleanup_step i acc) = st2"
    unfolding st2_def st1_def st_def by (simp add: cleanup_step_def case_prod_beta Let_def)
  then show ?thesis using d2 by simp
qed

lemma fold_cleanup_due:
  "sweep_inv M n acc \<Longrightarrow> \<forall>i \<in> set is. i < n \<Longrightarrow> due_mine c is (fst acc) \<Longrightarrow>
   c |\<in>| mines (fst (fold cleanup_step is acc))"
proof (induction "is" arbitrary: acc)
  case Nil
  then show ?case by (simp add: due_mine_def)
next
  case (Cons i "is")
  have 1: "sweep_inv M n (cleanup_step i acc)"
    using Cons.prems by (intro cleanup_step_sound) simp_all
  have 2: "due_mine c is (fst (cleanup_step i acc))"
    using Cons.prems by (intro cleanup_step_due [where M = M and n = n]) simp_all
  show ?case using Cons.IH [OF 1 _ 2] Cons.prems(2) by simp
qed

lemma final_cleanup_pending:
  assumes "sound M st" "pending_mine c st"
  shows "c |\<in>| mines (final_cleanup st)"
proof -
  have "due_mine c [0..<length (knowledge st)] st"
    using assms(2) by (auto simp: pending_mine_def due_mine_def list_ex_iff in_set_conv_nth)
  then have "c |\<in>| mines (fst (fold cleanup_step [0..<length (knowledge st)] (st, [])))"
    using assms(1)
    by (intro fold_cleanup_due [where M = M and n = "length (knowledge st)"])
       (simp_all add: sweep_inv_def)
  then show ?thesis by (simp add: final_cleanup_eq)
qed

lemma pending_set:
  "set (knowledge st') = set (knowledge st) \<union> X \<Longrightarrow> mines st' = mines st \<Longrightarrow>
   pending_mine c st \<Longrightarrow> pending_mine c st'"
  by (auto simp: pending_mine_def list_ex_iff)

section \<open>Scenario D\<close>

lemma safes_mark_all:
  "x |\<in>| safes st \<Longrightarrow> x |\<in>| safes (mark_all_mine S st)"
  "x |\<in>| safes st \<Longrightarrow> x |\<in>| safes (mark_all_safe S st)"
  by (simp_all add: mark_all_mine_eq mark_all_safe_eq)

lemma safes_kept_after_resolve:
  assumes "new_sentence_stage c k st = (st3, N, k')" "x |\<in>| safes (resolve_new N k' st3)"
  shows "x |\<in>| safes (add_knowledge c k st)"
proof -
  let ?P = "\<lambda>s. x |\<in>| safes s"
  have 6: "?P (fst (draw_inferences N k' (resolve_new N k' st3)))"
    using assms(2) by (rule draw_inferences_rule) (simp_all add: safes_mark_all)
  have 8: "?P (pre_cleanup c k st)"
    using 6 by (simp add: pre_cleanup_def resolve_and_infer_def assms(1) Let_def case_prod_beta)
  have "?P (final_cleanup (pre_cleanup c k st))"
    using 8 by (rule final_cleanup_rule) (simp_all add: safes_mark_all)
  then show ?thesis by (simp add: add_knowledge_def)
qed

lemma mines_after_resolve:
  assumes "sound M st" "c |\<notin>| M" "k = true_clue M (height st) (width st) c"
    and "new_sentence_stage c k st = (st3, N, k')" "pending_mine x (resolve_new N k' st3)"
  shows "x |\<in>| mines (add_knowledge c k st)"
proof -
  have 3: "sound M st3" and t: "sentence_true M \<lparr>cells = N, count = k'\<rparr>"
    using new_sentence_stage_sound [OF assms(1-3)] by (simp_all add: assms(4))
  have 5: "sound M (resolve_new N k' st3)" using 3 t by (rule resolve_new_sound)
  define r where "r = draw_inferences N k' (resolve_new N k' st3)"
  have 6: "pending_mine x (fst r)"
    unfolding r_def using 5 t assms(5) by (rule draw_inferences_pending)
  have eq: "pre_cleanup c k st =
      (fst r\<lparr>knowledge := knowledge (fst r) @ snd r\<rparr>)
        \<lparr>knowledge := remove_duplicates (knowledge (fst r\<lparr>knowledge := knowledge (fst r) @ snd r\<rparr>))\<rparr>"
    by (simp add: pre_cleanup_def resolve_and_infer_def assms(4) Let_def case_prod_beta r_def)
  have 8: "pending_mine x (pre_cleanup c k st)"
  proof (rule pending_set [where st = "fst r" and X = "set (snd r)"])
    show "set (knowledge (pre_cleanup c k st)) = set (knowledge (fst r)) \<union> set (snd r)"
      by (simp add: eq set_remove_duplicates)
    show "mines (pre_cleanup c k st) = mines (fst r)" by (simp add: eq)
    show "pending_mine x (fst r)" by (rule 6)
  qed
  have "sound M (pre_cleanup c k st)" using assms(1-3) by (rule pre_cleanup_sound)
  then have "x |\<in>| mines (final_cleanup (pre_cleanup c k st))"
    using 8 by (rule final_cleanup_pending)
  then show ?thesis by (simp add: add_knowledge_def)
qed

text \<open>
  C3 (scenario D), as the claim states it, fails. On a 2 by 4 board, after (0,0) is marked
  safe, the clues 1 for (0,3) and 2 for (0,1) are given and (1,3) is marked as a mine, the
  knowledge base holds \<open>{(0,2),(1,0),(1,1),(1,2)} = 2\<close> next to \<open>{(0,2),(1,2)} = 0\<close>, and
  none of the four cells is in \<open>safes\<close> or \<open>mines\<close>. The clue 0 for (0,0) produces the new
  sentence \<open>{(1,0),(1,1)} = 0\<close>; after the call (0,2) and (1,2) are in \<open>safes\<close>, not in
  \<open>mines\<close>.
\<close>

theorem scenario_D_counterexample:
  "\<lparr>cells = {|(0, 2), (1, 0), (1, 1), (1, 2)|}, count = 2\<rparr>
     \<in> set (knowledge (run [MarkSafe (0, 0), AddKnowledge (0, 3) 1, AddKnowledge (0, 1) 2,
                              MarkMine (1, 3)] (init_ai 2 4))) \<and>
   (safes (run [MarkSafe (0, 0), AddKnowledge (0, 3) 1, AddKnowledge (0, 1) 2, MarkMine (1, 3)]
            (init_ai 2 4)) |\<union>|
    mines (run [MarkSafe (0, 0), AddKnowledge (0, 3) 1, AddKnowledge (0, 1) 2, MarkMine (1, 3)]
            (init_ai 2 4))) |\<inter>| {|(1, 0), (1, 1), (0, 2), (1, 2)|} = {||} \<and>
   get_neighbors
     (mark_safe (0, 0)
        (run [MarkSafe (0, 0), AddKnowledge (0, 3) 1, AddKnowledge (0, 1) 2, MarkMine (1, 3)]
           (init_ai 2 4)
         \<lparr>moves_made := finsert (0, 0)
            (moves_made (run [MarkSafe (0, 0), AddKnowledge (0, 3) 1, AddKnowledge (0, 1) 2,
                              MarkMine (1, 3)] (init_ai 2 4)))\<rparr>))
     (0, 0) 0 = ({|(1, 0), (1, 1)|}, 0) \<and>
   (0, 2) |\<notin>| mines (add_knowledge (0, 0) 0
      (run [MarkSafe (0, 0), AddKnowledge (0, 3) 1, AddKnowledge (0, 1) 2, MarkMine (1, 3)]
         (init_ai 2 4))) \<and>
   (1, 2) |\<notin>| mines (add_knowledge (0, 0) 0
      (run [MarkSafe (0, 0), AddKnowledge (0, 3) 1, AddKnowledge (0, 1) 2, MarkMine (1, 3)]
         (init_ai 2 4))) \<and>
   (0, 2) |\<in>| safes (add_knowledge (0, 0) 0
      (run [MarkSafe (0, 0), AddKnowledge (0, 3) 1, AddKnowledge (0, 1) 2, MarkMine (1, 3)]
         (init_ai 2 4)))"
  by code_simp

text \<open>
  C3 (scenario D), amended. The knowledge base is sound for a mine layout \<open>M\<close> (as it is
  after correct usage) and holds the sentence \<open>{A,B,C,D} = 2\<close>, with \<open>C\<close> and \<open>D\<close> distinct
  and different from \<open>A\<close> and \<open>B\<close>; \<open>add_knowledge\<close> is called for a cell that is no mine
  with its true clue and produces the new sentence \<open>{A,B} = 0\<close>. Then after the call \<open>A\<close>
  and \<open>B\<close> are in \<open>safes\<close> and \<open>C\<close> and \<open>D\<close> are in \<open>mines\<close>. The two mines are found by
  the final cleanup: when the pairwise step runs, \<open>A\<close> and \<open>B\<close> have already been struck
  from the held sentence, which is \<open>{C,D} = 2\<close> by then and no superset of \<open>{A,B}\<close>.
\<close>

theorem scenario_D:
  assumes "sound M st" "cell |\<notin>| M" "cnt = true_clue M (height st) (width st) cell"
    and "\<lparr>cells = {|A, B, C, D|}, count = 2\<rparr> \<in> set (knowledge st)"
    and "get_neighbors (mark_safe cell (st\<lparr>moves_made := finsert cell (moves_made st)\<rparr>)) cell cnt
           = ({|A, B|}, 0)"
    and "C \<noteq> D" "C \<noteq> A" "C \<noteq> B" "D \<noteq> A" "D \<noteq> B"
  shows "A |\<in>| safes (add_knowledge cell cnt st) \<and> B |\<in>| safes (add_knowledge cell cnt st) \<and>
         C |\<in>| mines (add_knowledge cell cnt st) \<and> D |\<in>| mines (add_knowledge cell cnt st)"
proof -
  define st2 where "st2 = mark_safe cell (st\<lparr>moves_made := finsert cell (moves_made st)\<rparr>)"
  define st3 where "st3 = st2\<lparr>knowledge := knowledge st2 @ [\<lparr>cells = {|A, B|}, count = 0\<rparr>]\<rparr>"
  have ns: "new_sentence_stage cell cnt st = (st3, {|A, B|}, 0)"
    using assms(5) by (simp add: new_sentence_stage_def Let_def st3_def st2_def Sentence_def)
  have t: "sentence_true M \<lparr>cells = {|A, B|}, count = 0\<rparr>"
    using new_sentence_stage_sound [OF assms(1-3)] by (simp add: ns)
  have AB: "A |\<notin>| M" "B |\<notin>| M" using true_zero [OF t] by auto
  have "sentence_true M \<lparr>cells = {|A, B, C, D|}, count = 2\<rparr>"
    using assms(1,4) by (simp add: sound_def list_all_iff)
  then have c2: "fcard ({|A, B, C, D|} |\<inter>| M) = 2" by (simp add: sentence_true_def)
  have sub: "{|A, B, C, D|} |\<inter>| M |\<subseteq>| {|C, D|}" using AB by auto
  have f2: "fcard {|C, D|} = 2" using assms(6) by (simp add: fcard_finsert_if)
  have "{|A, B, C, D|} |\<inter>| M = {|C, D|}"
    using sub c2 f2 by (intro fcard_seteq) simp_all
  then have CD: "C |\<in>| M" "D |\<in>| M" by auto
  then have nc: "cell \<noteq> C" "cell \<noteq> D" using assms(2) by auto
  have r5: "resolve_new {|A, B|} 0 st3 = mark_all_safe {|A, B|} st3"
    by (simp add: resolve_new_def Let_def fcard_finsert_if)
  have k2: "strike_safe {|cell|} \<lparr>cells = {|A, B, C, D|}, count = 2\<rparr> \<in> set (knowledge st2)"
    using assms(4) by (simp add: st2_def mark_safe_as_all mark_all_safe_eq)
  have "strike_safe {|A, B|} (strike_safe {|cell|} \<lparr>cells = {|A, B, C, D|}, count = 2\<rparr>)
          \<in> set (knowledge (mark_all_safe {|A, B|} st3))"
    using k2 by (simp add: mark_all_safe_eq st3_def)
  moreover have "strike_safe {|A, B|} (strike_safe {|cell|} \<lparr>cells = {|A, B, C, D|}, count = 2\<rparr>)
          = \<lparr>cells = {|C, D|}, count = 2\<rparr>"
    using nc assms(6-10) by (auto simp: strike_safe_def)
  ultimately have k5: "\<lparr>cells = {|C, D|}, count = 2\<rparr> \<in> set (knowledge (resolve_new {|A, B|} 0 st3))"
    by (simp add: r5)
  have "full_with C \<lparr>cells = {|C, D|}, count = 2\<rparr>" "full_with D \<lparr>cells = {|C, D|}, count = 2\<rparr>"
    using f2 by (simp_all add: full_with_def)
  then have p: "pending_mine C (resolve_new {|A, B|} 0 st3)" "pending_mine D (resolve_new {|A, B|} 0 st3)"
    using k5 unfolding pending_mine_def list_ex_iff by blast+
  have s: "A |\<in>| safes (resolve_new {|A, B|} 0 st3)" "B |\<in>| safes (resolve_new {|A, B|} 0 st3)"
    by (simp_all add: r5 mark_all_safe_eq)
  show ?thesis
    using safes_kept_after_resolve [OF ns s(1)] safes_kept_after_resolve [OF ns s(2)]
      mines_after_resolve [OF assms(1-3) ns p(1)] mines_after_resolve [OF assms(1-3) ns p(2)]
    by simp
qed

text \<open>
  An instance of the amended C3 on a 1 by 5 board with mines at (0,3) and (0,4): the clue 0 for (0,1)
  gives the new sentence \<open>{(0,0),(0,2)} = 0\<close>.
\<close>

theorem scenario_D_witness:
  "sound {|(0, 3), (0, 4)|} (init_ai 1 5\<lparr>knowledge := [\<lparr>cells = {|(0, 0), (0, 2), (0, 3), (0, 4)|}, count = 2\<rparr>]\<rparr>) \<and>
   (0, 0) |\<in>| safes (add_knowledge (0, 1) 0
      (init_ai 1 5\<lparr>knowledge := [\<lparr>cells = {|(0, 0), (0, 2), (0, 3), (0, 4)|}, count = 2\<rparr>]\<rparr>)) \<and>
   (0, 2) |\<in>| safes (add_knowledge (0, 1) 0
      (init_ai 1 5\<lparr>knowledge := [\<lparr>cells = {|(0, 0), (0, 2), (0, 3), (0, 4)|}, count = 2\<rparr>]\<rparr>)) \<and>
   (0, 3) |\<in>| mines (add_knowledge (0, 1) 0
      (init_ai 1 5\<lparr>knowledge := [\<lparr>cells = {|(0, 0), (0, 2), (0, 3), (0, 4)|}, count = 2\<rparr>]\<rparr>)) \<and>
   (0, 4) |\<in>| mines (add_knowledge (0, 1) 0
      (init_ai 1 5\<lparr>knowledge := [\<lparr>cells = {|(0, 0), (0, 2), (0, 3), (0, 4)|}, count = 2\<rparr>]\<rparr>))"
proof -
  define st where "st = init_ai 1 5\<lparr>knowledge := [\<lparr>cells = {|(0, 0), (0, 2), (0, 3), (0, 4)|}, count = 2\<rparr>]\<rparr>"
  have 1: "sound {|(0, 3), (0, 4)|} st" unfolding st_def by code_simp
  have 2: "(0, 1) |\<notin>| {|(0::int, 3::int), (0, 4)|}" by simp
  have 3: "0 = true_clue {|(0, 3), (0, 4)|} (height st) (width st) (0, 1)"
    unfolding st_def by code_simp
  have 4: "\<lparr>cells = {|(0, 0), (0, 2), (0, 3), (0, 4)|}, count = 2\<rparr> \<in> set (knowledge st)"
    by (simp add: st_def)
  have 5: "get_neighbors (mark_safe (0, 1) (st\<lparr>moves_made := finsert (0, 1) (moves_made st)\<rparr>)) (0, 1) 0
             = ({|(0, 0), (0, 2)|}, 0)"
    unfolding st_def by code_simp
  have "(0, 0) |\<in>| safes (add_knowledge (0, 1) 0 st) \<and> (0, 2) |\<in>| safes (add_knowledge (0, 1) 0 st) \<and>
        (0, 3) |\<in>| mines (add_knowledge (0, 1) 0 st) \<and> (0, 4) |\<in>| mines (add_knowledge (0, 1) 0 st)"
    using 1 2 3 4 5 by (rule scenario_D [where M = "{|(0, 3), (0, 4)|}"]) simp_all
  then show ?thesis using 1 unfolding st_def by simp
qed

section \<open>Scenario D for a knowledge base of one sentence\<close>

lemma mines_mark_all:
  "x |\<in>| mines st \<Longrightarrow> x |\<in>| mines (mark_all_mine S st)"
  "x |\<in>| mines st \<Longrightarrow> x |\<in>| mines (mark_all_safe S st)"
  by (simp_all add: mark_all_mine_eq mark_all_safe_eq)

lemma cleanup_first_full:
  assumes "c |\<in>| cells (knowledge st ! i)" "int (fcard (cells (knowledge st ! i))) = count (knowledge st ! i)"
  shows "c |\<in>| mines (fst (fold cleanup_step (i # is) (st, fin)))"
proof -
  have ne: "cells (knowledge st ! i) \<noteq> {||}" using assms(1) by auto
  have "c |\<in>| mines (mark_all_mine (cells (knowledge st ! i)) st)"
    using assms(1) by (simp add: mark_all_mine_eq)
  then have "c |\<in>| mines (fst (cleanup_step i (st, fin)))"
    using assms(2) ne
    by (simp add: cleanup_step_def Let_def known_mines_def mines_mark_all split: option.split)
  then have "c |\<in>| mines (fst (fold cleanup_step is (cleanup_step i (st, fin))))"
    by (rule fold_cleanup_rule) (simp_all add: mines_mark_all)
  then show ?thesis by simp
qed

text \<open>
  The same scenario with no assumption on the clues: the knowledge base holds the one
  sentence \<open>{A,B,C,D} = 2\<close>, and the probed cell is neither \<open>C\<close> nor \<open>D\<close>.
\<close>

lemma single_sentence_scenario:
  assumes "knowledge st = [\<lparr>cells = {|A, B, C, D|}, count = 2\<rparr>]"
    and "get_neighbors (mark_safe cell (st\<lparr>moves_made := finsert cell (moves_made st)\<rparr>)) cell cnt
           = ({|A, B|}, 0)"
    and "C \<noteq> D" "C \<noteq> A" "C \<noteq> B" "D \<noteq> A" "D \<noteq> B" "cell \<noteq> C" "cell \<noteq> D"
  shows "A |\<in>| safes (add_knowledge cell cnt st) \<and> B |\<in>| safes (add_knowledge cell cnt st) \<and>
         C |\<in>| mines (add_knowledge cell cnt st) \<and> D |\<in>| mines (add_knowledge cell cnt st)"
proof -
  define st2 where "st2 = mark_safe cell (st\<lparr>moves_made := finsert cell (moves_made st)\<rparr>)"
  define st3 where "st3 = st2\<lparr>knowledge := knowledge st2 @ [\<lparr>cells = {|A, B|}, count = 0\<rparr>]\<rparr>"
  define st5 where "st5 = mark_all_safe {|A, B|} st3"
  have ns: "new_sentence_stage cell cnt st = (st3, {|A, B|}, 0)"
    using assms(2) by (simp add: new_sentence_stage_def Let_def st3_def st2_def Sentence_def)
  have r5: "resolve_new {|A, B|} 0 st3 = st5"
    by (simp add: resolve_new_def Let_def fcard_finsert_if st5_def)
  have s0: "strike_safe {|A, B|} (strike_safe {|cell|} \<lparr>cells = {|A, B, C, D|}, count = 2\<rparr>)
          = \<lparr>cells = {|C, D|}, count = 2\<rparr>"
    using assms(3-9) by (auto simp: strike_safe_def)
  have s1: "strike_safe {|A, B|} \<lparr>cells = {|A, B|}, count = 0\<rparr> = \<lparr>cells = {||}, count = 0\<rparr>"
    by (simp add: strike_safe_def)
  have k5: "knowledge st5 = [\<lparr>cells = {|C, D|}, count = 2\<rparr>, \<lparr>cells = {||}, count = 0\<rparr>]"
    by (simp add: st5_def st3_def st2_def mark_safe_as_all mark_all_safe_eq assms(1) s0 s1)
  have ne: "{|C, D|} \<noteq> {||}" by simp
  have sub0: "infer_subset {|A, B|} 0 0 (st5, []) = (st5, [])"
    using assms(4,5) by (simp add: infer_subset_def Let_def k5)
  have sup0: "infer_superset {|A, B|} 0 0 (st5, []) = (st5, [])"
    using assms(4,6) by (auto simp: infer_superset_def Let_def k5)
  have i0: "infer_step {|A, B|} 0 0 (st5, []) = (st5, [])"
    by (simp add: infer_step_def sub0 sup0)
  have i1: "infer_step {|A, B|} 0 (Suc 0) (st5, []) = (st5, [])"
    by (simp add: infer_step_def sentence_eq_def k5)
  have u: "[0..<length (knowledge st5)] = [0, Suc 0]"
    by (simp add: k5 upt_rec)
  have d6: "draw_inferences {|A, B|} 0 st5 = (st5, [])"
    by (simp add: draw_inferences_def u i0 i1)
  have rd: "remove_duplicates (knowledge st5) = knowledge st5"
    by (simp add: k5 remove_duplicates_def sentence_eq_def)
  have p8: "pre_cleanup cell cnt st = st5"
    by (simp add: pre_cleanup_def resolve_and_infer_def ns r5 d6 rd)
  have f2: "fcard {|C, D|} = 2" using assms(3) by (simp add: fcard_finsert_if)
  have full: "int (fcard (cells (knowledge st5 ! 0))) = count (knowledge st5 ! 0)"
    by (simp add: k5 f2)
  have m: "C |\<in>| mines (final_cleanup st5)" "D |\<in>| mines (final_cleanup st5)"
    unfolding final_cleanup_eq u
    by (rule cleanup_first_full; simp add: k5 f2)+
  have s5: "A |\<in>| safes st5" "B |\<in>| safes st5"
    by (simp_all add: st5_def mark_all_safe_eq)
  have sA: "A |\<in>| safes (final_cleanup st5)"
    using s5(1) by (rule final_cleanup_rule) (simp_all add: mark_all_mine_eq mark_all_safe_eq)
  have sB: "B |\<in>| safes (final_cleanup st5)"
    using s5(2) by (rule final_cleanup_rule) (simp_all add: mark_all_mine_eq mark_all_safe_eq)
  note s = sA sB
  show ?thesis using m s by (simp add: add_knowledge_def p8)
qed

end
